theory Spec2Isabelle
  imports Complex_Main
begin

section \<open>Numbers and bars\<close>

text \<open>
  The indicator only compares prices and copies them; it never computes with them. A
  JavaScript number is therefore modelled by its order: a finite value, the two
  infinities, and NaN, against which every comparison is false.
\<close>

datatype jsnum = NaN | NegInf | Fin real | PosInf

text \<open>\<open>js_gt a b\<close> is the JavaScript comparison \<open>a > b\<close>.\<close>

fun js_gt :: "jsnum \<Rightarrow> jsnum \<Rightarrow> bool" where
  "js_gt (Fin a) (Fin b) = (b < a)"
| "js_gt (Fin a) NegInf = True"
| "js_gt PosInf (Fin b) = True"
| "js_gt PosInf NegInf = True"
| "js_gt _ _ = False"

text \<open>\<open>js_lt a b\<close> is \<open>a < b\<close>.\<close>

definition js_lt :: "jsnum \<Rightarrow> jsnum \<Rightarrow> bool" where
  "js_lt a b = js_gt b a"

text \<open>
  The source declares the fields of a bar as numbers and checks nothing, so at run time
  a field holds any value, or is missing. The values are the primitive values of the
  language. The source uses a field only through \<open>Number(...)\<close>, so a string and a
  BigInt are given by the number that \<open>Number\<close> returns for them: the value of its
  numeric literal for a string, NaN for a string that is none.
\<close>

datatype jsval = Undefined | Null | Boolean bool | Num jsnum | Str jsnum | BigInt jsnum | Symbol

text \<open>
  The only failure the source can raise is a TypeError: reading a property of
  \<open>undefined\<close> or \<open>null\<close>, and converting a Symbol to a number.
\<close>

datatype error = TypeError

text \<open>
  \<open>Number(v)\<close>, the coercion the source applies to every field it reads: a missing field
  becomes NaN, \<open>null\<close> becomes 0, \<open>true\<close> and \<open>false\<close> become 1 and 0, and a Symbol
  throws.
\<close>

fun Number :: "jsval \<Rightarrow> error + jsnum" where
  "Number Undefined = Inr NaN"
| "Number Null = Inr (Fin 0)"
| "Number (Boolean b) = Inr (Fin (if b then 1 else 0))"
| "Number (Num x) = Inr x"
| "Number (Str x) = Inr x"
| "Number (BigInt x) = Inr x"
| "Number Symbol = Inl TypeError"

text \<open>The fields of a bar that \<open>calc\<close> reads.\<close>

record bar =
  high :: jsval
  low :: jsval
  close :: jsval

text \<open>
  An element of \<open>dataList\<close> is a bar, or \<open>None\<close> when it is \<open>undefined\<close> or \<open>null\<close>.
  \<open>bar_at dataList j\<close> is the read \<open>dataList[j]\<close> that is followed by a property access:
  it throws past either end of the list and at an element that is no bar.
\<close>

definition bar_at :: "bar option list \<Rightarrow> int \<Rightarrow> error + bar" where
  "bar_at dataList j =
     (if 0 \<le> j \<and> j < int (length dataList) then
        (case dataList ! nat j of None \<Rightarrow> Inl TypeError | Some b \<Rightarrow> Inr b)
      else Inl TypeError)"

section \<open>Result channels\<close>

datatype key =
    swingBosBull | swingBosBear | swingChochBull | swingChochBear
  | internalBosBull | internalBosBear | internalChochBull | internalChochBear
  | swingHighMarker | swingLowMarker

type_synonym SmartMoneyResult = "key \<Rightarrow> jsnum option"

datatype level = Swing | Internal

record pivot =
  index :: nat
  price :: jsnum

text \<open>An entry of the source's \<open>pivots\<close> array: one line from a pivot to its break.\<close>

record pivot_line =
  key :: key
  pivotIndex :: nat
  breakIndex :: nat
  line_price :: jsnum
  level :: level

datatype trend = Neutral | Bullish | Bearish

datatype os = Top | Bottom

section \<open>Loops\<close>

text \<open>\<open>for (let i = a; i < b; i++) body\<close>, stopping at the first failure of the body.\<close>

function for_loop :: "int \<Rightarrow> int \<Rightarrow> (int \<Rightarrow> 's \<Rightarrow> error + 's) \<Rightarrow> 's \<Rightarrow> error + 's" where
  "for_loop i b body s =
     (if i < b then
        (case body i s of Inl e \<Rightarrow> Inl e | Inr s' \<Rightarrow> for_loop (i + 1) b body s')
      else Inr s)"
  by pat_completeness auto
termination
  by (relation "measure (\<lambda>(i, b, body, s). nat (b - i))") auto

declare for_loop.simps [simp del]

section \<open>Phase 1: pivot detection\<close>

text \<open>The body of the inner loop over the forward window \<open>p + 1 .. i\<close>.\<close>

definition window_body :: "bar option list \<Rightarrow> int \<Rightarrow> jsnum \<times> jsnum \<Rightarrow> error + jsnum \<times> jsnum" where
  "window_body dataList j mm =
     (case bar_at dataList j of
        Inl e \<Rightarrow> Inl e
      | Inr b \<Rightarrow>
        (case Number (high b) of
           Inl e \<Rightarrow> Inl e
         | Inr hj \<Rightarrow>
           (case Number (low b) of
              Inl e \<Rightarrow> Inl e
            | Inr lj \<Rightarrow>
                (let maxHigh = fst mm; minLow = snd mm
                 in Inr (if js_gt hj maxHigh then hj else maxHigh,
                         if js_lt lj minLow then lj else minLow)))))"

definition set_key :: "SmartMoneyResult list \<Rightarrow> int \<Rightarrow> key \<Rightarrow> jsnum \<Rightarrow> error + SmartMoneyResult list" where
  "set_key results p k v =
     (if 0 \<le> p \<and> p < int (length results)
      then Inr (results[nat p := (results ! nat p)(k \<mapsto> v)])
      else Inl TypeError)"

text \<open>
  The marker written with an emitted pivot: the swing scan writes one, the internal scan
  writes none.
\<close>

definition mark :: "key option \<Rightarrow> int \<Rightarrow> jsnum \<Rightarrow> SmartMoneyResult list \<Rightarrow> error + SmartMoneyResult list" where
  "mark k p v results = (case k of None \<Rightarrow> Inr results | Some k' \<Rightarrow> set_key results p k' v)"

text \<open>
  \<open>if (cond) { list.push({ index: p, price: v }); results[p].marker = v }\<close>
\<close>

definition push_pivot :: "bool \<Rightarrow> key option \<Rightarrow> int \<Rightarrow> jsnum \<Rightarrow> pivot list \<times> SmartMoneyResult list \<Rightarrow> error + pivot list \<times> SmartMoneyResult list" where
  "push_pivot cond marker p v lr =
     (if cond then
        (case mark marker p v (snd lr) of
           Inl e \<Rightarrow> Inl e
         | Inr r \<Rightarrow> Inr (fst lr @ [\<lparr>index = nat p, price = v\<rparr>], r))
      else Inr lr)"

type_synonym scan_state = "os option \<times> pivot list \<times> pivot list \<times> SmartMoneyResult list"

text \<open>
  One evaluation index \<open>i\<close> of the scan with offset \<open>len\<close>. The state is the register
  \<open>os\<close> (\<open>None\<close> for \<open>null\<close>), the pivot highs, the pivot lows and the results array.
\<close>

definition pivot_body :: "bar option list \<Rightarrow> int \<Rightarrow> key option \<Rightarrow> key option \<Rightarrow> int \<Rightarrow> scan_state \<Rightarrow> error + scan_state" where
  "pivot_body dataList len hiMarker loMarker i st =
     (case st of (prevOs, hs, ls, results) \<Rightarrow>
      (let p = i - len in
       case for_loop (p + 1) (i + 1) (window_body dataList) (NegInf, PosInf) of
         Inl e \<Rightarrow> Inl e
       | Inr (maxHigh, minLow) \<Rightarrow>
         (case bar_at dataList p of
            Inl e \<Rightarrow> Inl e
          | Inr b \<Rightarrow>
            (case Number (high b) of
               Inl e \<Rightarrow> Inl e
             | Inr pivotHigh \<Rightarrow>
               (case Number (low b) of
                  Inl e \<Rightarrow> Inl e
                | Inr pivotLow \<Rightarrow>
                  (let currOs = (if js_gt pivotHigh maxHigh then Some Top
                                 else if js_lt pivotLow minLow then Some Bottom
                                 else prevOs)
                   in case push_pivot (currOs = Some Top \<and> prevOs \<noteq> Some Top)
                             hiMarker p pivotHigh (hs, results) of
                        Inl e \<Rightarrow> Inl e
                      | Inr (hs', results') \<Rightarrow>
                        (case push_pivot (currOs = Some Bottom \<and> prevOs \<noteq> Some Bottom)
                                loMarker p pivotLow (ls, results') of
                           Inl e \<Rightarrow> Inl e
                         | Inr (ls', results'') \<Rightarrow> Inr (currOs, hs', ls', results''))))))))"

definition scan_pivots :: "bar option list \<Rightarrow> int \<Rightarrow> key option \<Rightarrow> key option \<Rightarrow> SmartMoneyResult list \<Rightarrow> error + scan_state" where
  "scan_pivots dataList len hiMarker loMarker results =
     for_loop len (int (length dataList)) (pivot_body dataList len hiMarker loMarker)
       (None, [], [], results)"

section \<open>Writing a range into a channel\<close>

text \<open>\<open>results[k]?.[key] !== undefined\<close>\<close>

definition has_key :: "SmartMoneyResult list \<Rightarrow> key \<Rightarrow> nat \<Rightarrow> bool" where
  "has_key results k i = (i < length results \<and> (results ! i) k \<noteq> None)"

text \<open>
  The backward loop \<open>while (k >= 0)\<close>: it steps down from \<open>k\<close> while the key is set and
  remembers the last index where it was.
\<close>

fun run_start :: "SmartMoneyResult list \<Rightarrow> key \<Rightarrow> nat \<Rightarrow> nat option \<Rightarrow> nat option" where
  "run_start results ky 0 runStart = (if has_key results ky 0 then Some 0 else runStart)"
| "run_start results ky (Suc k) runStart =
     (if has_key results ky (Suc k) then run_start results ky k (Some (Suc k)) else runStart)"

function run_end :: "SmartMoneyResult list \<Rightarrow> key \<Rightarrow> nat \<Rightarrow> nat" where
  "run_end results ky runEnd =
     (if runEnd + 1 < length results \<and> has_key results ky (runEnd + 1)
      then run_end results ky (runEnd + 1) else runEnd)"
  by pat_completeness auto
termination
  by (relation "measure (\<lambda>(results, ky, runEnd). length results - runEnd)") auto

declare run_end.simps [simp del]

definition delete_key :: "key \<Rightarrow> SmartMoneyResult list \<Rightarrow> nat \<Rightarrow> SmartMoneyResult list" where
  "delete_key ky results m = results[m := (results ! m)(ky := None)]"

definition put_key :: "key \<Rightarrow> jsnum \<Rightarrow> SmartMoneyResult list \<Rightarrow> nat \<Rightarrow> SmartMoneyResult list" where
  "put_key ky v results j = results[j := (results ! j)(ky \<mapsto> v)]"

text \<open>
  The two forward loops run over \<open>m = start, start + 1, ...\<close> while \<open>m <= bound\<close> and
  \<open>m < results.length\<close>; the length does not change while they run.
\<close>

definition writeRange :: "key \<Rightarrow> nat \<Rightarrow> nat \<Rightarrow> jsnum \<Rightarrow> SmartMoneyResult list \<Rightarrow> SmartMoneyResult list" where
  "writeRange ky start end pr results =
     (let k = nat (max 0 (int start - 1));
          results1 =
            (case run_start results ky k None of
               None \<Rightarrow> results
             | Some runStart \<Rightarrow>
                 (let runEnd = run_end results ky runStart in
                  if runEnd \<ge> start
                  then foldl (delete_key ky) results [start ..< min (Suc runEnd) (length results)]
                  else results))
      in foldl (put_key ky pr) results1 [start ..< min (Suc end) (length results1)])"

section \<open>Phase 2: break detection\<close>

text \<open>
  \<open>for (const pivot of list) { if (P pivot) { ...; list.splice(list.indexOf(pivot), 1); break } }\<close>:
  the first pivot that satisfies the test, and the list without it.
\<close>

fun first_break :: "(pivot \<Rightarrow> bool) \<Rightarrow> pivot list \<Rightarrow> (pivot \<times> pivot list) option" where
  "first_break P [] = None"
| "first_break P (pv # rest) =
     (if P pv then Some (pv, rest)
      else map_option (\<lambda>(q, r). (q, pv # r)) (first_break P rest))"

type_synonym check_state = "pivot list \<times> trend \<times> SmartMoneyResult list \<times> pivot_line list"

definition check_bull :: "key \<Rightarrow> key \<Rightarrow> level \<Rightarrow> nat \<Rightarrow> jsnum \<Rightarrow> check_state \<Rightarrow> check_state" where
  "check_bull chochKey bosKey lvl i cl st =
     (case st of (hs, tr, results, pivots) \<Rightarrow>
      (case first_break (\<lambda>pv. index pv < i \<and> js_gt cl (price pv)) hs of
         None \<Rightarrow> (hs, tr, results, pivots)
       | Some (pv, hs') \<Rightarrow>
           if tr = Bearish then
             (hs', Bullish, writeRange chochKey (index pv) i (price pv) results,
              pivots @ [\<lparr>key = chochKey, pivotIndex = index pv, breakIndex = i,
                         line_price = price pv, level = lvl\<rparr>])
           else
             (hs', Bullish, writeRange bosKey (index pv) i (price pv) results,
              pivots @ [\<lparr>key = bosKey, pivotIndex = index pv, breakIndex = i,
                         line_price = price pv, level = lvl\<rparr>])))"

text \<open>The bearish check of the internal level: \<open>if (trend === 1) ... else ...\<close>.\<close>

definition check_bear :: "key \<Rightarrow> key \<Rightarrow> level \<Rightarrow> nat \<Rightarrow> jsnum \<Rightarrow> check_state \<Rightarrow> check_state" where
  "check_bear chochKey bosKey lvl i cl st =
     (case st of (ls, tr, results, pivots) \<Rightarrow>
      (case first_break (\<lambda>pv. index pv < i \<and> js_lt cl (price pv)) ls of
         None \<Rightarrow> (ls, tr, results, pivots)
       | Some (pv, ls') \<Rightarrow>
           if tr = Bullish then
             (ls', Bearish, writeRange chochKey (index pv) i (price pv) results,
              pivots @ [\<lparr>key = chochKey, pivotIndex = index pv, breakIndex = i,
                         line_price = price pv, level = lvl\<rparr>])
           else
             (ls', Bearish, writeRange bosKey (index pv) i (price pv) results,
              pivots @ [\<lparr>key = bosKey, pivotIndex = index pv, breakIndex = i,
                         line_price = price pv, level = lvl\<rparr>])))"

text \<open>
  The bearish check of the swing level tests the trend twice:
  \<open>if (trend === 1) ... else if (trend === -1 || trend === 0) ...\<close>, and splices the pivot
  out after both tests.
\<close>

definition check_bear_swing :: "key \<Rightarrow> key \<Rightarrow> level \<Rightarrow> nat \<Rightarrow> jsnum \<Rightarrow> check_state \<Rightarrow> check_state" where
  "check_bear_swing chochKey bosKey lvl i cl st =
     (case st of (ls, tr, results, pivots) \<Rightarrow>
      (case first_break (\<lambda>pv. index pv < i \<and> js_lt cl (price pv)) ls of
         None \<Rightarrow> (ls, tr, results, pivots)
       | Some (pv, ls') \<Rightarrow>
           if tr = Bullish then
             (ls', Bearish, writeRange chochKey (index pv) i (price pv) results,
              pivots @ [\<lparr>key = chochKey, pivotIndex = index pv, breakIndex = i,
                         line_price = price pv, level = lvl\<rparr>])
           else if tr = Bearish \<or> tr = Neutral then
             (ls', Bearish, writeRange bosKey (index pv) i (price pv) results,
              pivots @ [\<lparr>key = bosKey, pivotIndex = index pv, breakIndex = i,
                         line_price = price pv, level = lvl\<rparr>])
           else (ls', tr, results, pivots)))"

record calc_state =
  swingHighs :: "pivot list"
  swingLows :: "pivot list"
  internalHighs :: "pivot list"
  internalLows :: "pivot list"
  swingTrend :: trend
  internalTrend :: trend
  results :: "SmartMoneyResult list"
  pivots :: "pivot_line list"


text \<open>
  The four checks of the break loop at bar \<open>i\<close> with close \<open>cl\<close>, in the order of the
  source.
\<close>

definition break_checks :: "nat \<Rightarrow> jsnum \<Rightarrow> calc_state \<Rightarrow> calc_state" where
  "break_checks i cl st =
     (case check_bull swingChochBull swingBosBull Swing i cl
             (swingHighs st, swingTrend st, results st, pivots st) of
        (sh, t1, r1, p1) \<Rightarrow>
      case check_bear_swing swingChochBear swingBosBear Swing i cl
             (swingLows st, t1, r1, p1) of
        (sl, t2, r2, p2) \<Rightarrow>
      case check_bull internalChochBull internalBosBull Internal i cl
             (internalHighs st, internalTrend st, r2, p2) of
        (ih, t3, r3, p3) \<Rightarrow>
      case check_bear internalChochBear internalBosBear Internal i cl
             (internalLows st, t3, r3, p3) of
        (il, t4, r4, p4) \<Rightarrow>
      \<lparr>swingHighs = sh, swingLows = sl, internalHighs = ih, internalLows = il,
       swingTrend = t2, internalTrend = t4, results = r4, pivots = p4\<rparr>)"

text \<open>
  One bar \<open>i\<close> of the break loop: \<open>const close = Number(dataList[i].close)\<close>, then the
  four checks.
\<close>

definition break_step :: "bar option list \<Rightarrow> int \<Rightarrow> calc_state \<Rightarrow> error + calc_state" where
  "break_step dataList i st =
     (case bar_at dataList i of
        Inl e \<Rightarrow> Inl e
      | Inr b \<Rightarrow>
        (case Number (close b) of
           Inl e \<Rightarrow> Inl e
         | Inr cl \<Rightarrow> Inr (break_checks (nat i) cl st)))"

text \<open>\<open>for (let i = 0; i < dataList.length; i++)\<close> over the bars.\<close>

definition detect_breaks :: "bar option list \<Rightarrow> calc_state \<Rightarrow> error + calc_state" where
  "detect_breaks dataList st = for_loop 0 (int (length dataList)) (break_step dataList) st"

section \<open>The calculation\<close>

text \<open>
  Phase 1 of \<open>calc\<close>: both scans, from an array of empty results. The state it returns
  is the one the break loop starts from.
\<close>

definition detect_pivots :: "bar option list \<Rightarrow> int \<Rightarrow> int \<Rightarrow> error + calc_state" where
  "detect_pivots dataList swingLength internalLength =
     (case scan_pivots dataList swingLength (Some swingHighMarker) (Some swingLowMarker)
             (map (\<lambda>_. Map.empty) dataList) of
        Inl e \<Rightarrow> Inl e
      | Inr (swingOs, sh, sl, results1) \<Rightarrow>
        (case scan_pivots dataList internalLength None None results1 of
           Inl e \<Rightarrow> Inl e
         | Inr (internalOs, ih, il, results2) \<Rightarrow>
             Inr \<lparr>swingHighs = sh, swingLows = sl, internalHighs = ih, internalLows = il,
                  swingTrend = Neutral, internalTrend = Neutral, results = results2,
                  pivots = []\<rparr>))"

definition calc :: "bar option list \<Rightarrow> int \<Rightarrow> int \<Rightarrow> error + calc_state" where
  "calc dataList swingLength internalLength =
     (case detect_pivots dataList swingLength internalLength of
        Inl e \<Rightarrow> Inl e
      | Inr st \<Rightarrow> detect_breaks dataList st)"

section \<open>The values that a run reads\<close>

text \<open>
  A run that returns has read, without a failure, every value it used. \<open>bars\<close> is the
  list of the bars of \<open>dataList\<close> and \<open>numval\<close> the number that a field holds; both
  are total, and agree with \<open>bar_at\<close> and \<open>Number\<close> wherever these return. The
  functions of the sections below work on them.
\<close>

definition numval :: "jsval \<Rightarrow> jsnum" where
  "numval v = (case Number v of Inl e \<Rightarrow> NaN | Inr x \<Rightarrow> x)"

fun bar_of :: "bar option \<Rightarrow> bar" where
  "bar_of None = \<lparr>high = Undefined, low = Undefined, close = Undefined\<rparr>"
| "bar_of (Some b) = b"

definition bars :: "bar option list \<Rightarrow> bar list" where
  "bars dataList = map bar_of dataList"

text \<open>
  The two reads of the scan succeed on an element, and the read of the break loop
  succeeds on it.
\<close>

definition scan_readable :: "bar option \<Rightarrow> bool" where
  "scan_readable x = (case x of None \<Rightarrow> False | Some b \<Rightarrow> high b \<noteq> Symbol \<and> low b \<noteq> Symbol)"

definition close_readable :: "bar option \<Rightarrow> bool" where
  "close_readable x = (case x of None \<Rightarrow> False | Some b \<Rightarrow> close b \<noteq> Symbol)"

text \<open>
  The condition under which a scan with offset \<open>len\<close> returns: the offset is not
  negative, and every bar can be read unless the offset leaves no candidate.
\<close>

definition scan_returns :: "bar option list \<Rightarrow> int \<Rightarrow> bool" where
  "scan_returns dataList len =
     (0 \<le> len \<and> (int (length dataList) \<le> len \<or> list_all scan_readable dataList))"

definition calc_returns_on :: "bar option list \<Rightarrow> int \<Rightarrow> int \<Rightarrow> bool" where
  "calc_returns_on dataList swingLength internalLength =
     (scan_returns dataList swingLength \<and> scan_returns dataList internalLength
      \<and> list_all close_readable dataList)"

text \<open>One bar of the break loop and the whole loop, on the values read.\<close>

definition bstep :: "bar list \<Rightarrow> calc_state \<Rightarrow> nat \<Rightarrow> calc_state" where
  "bstep bs st i = break_checks i (numval (close (bs ! i))) st"

definition bfold :: "bar list \<Rightarrow> calc_state \<Rightarrow> calc_state" where
  "bfold bs st = foldl (bstep bs) st [0 ..< length bs]"

section \<open>The scan as a fold over the candidates\<close>

text \<open>
  For a lookback \<open>l \<ge> 0\<close> every read of the scan is in range, and where the reads
  succeed the scan is a fold over the candidates \<open>p = 0, ..., n - l - 1\<close>. The functions
  below are that fold, on the bars and numbers read; they are proved equal to the loops
  above wherever these return, and carry the proofs.
\<close>

text \<open>One step of the inner loop on the pair \<open>(maxHigh, minLow)\<close>.\<close>

definition wupd :: "jsnum \<times> jsnum \<Rightarrow> bar \<Rightarrow> jsnum \<times> jsnum" where
  "wupd mm b =
     (if js_gt (numval (high b)) (fst mm) then numval (high b) else fst mm,
      if js_lt (numval (low b)) (snd mm) then numval (low b) else snd mm)"

text \<open>The pair \<open>(maxHigh, minLow)\<close> over the \<open>l\<close> bars after \<open>p\<close>.\<close>

definition window :: "bar list \<Rightarrow> nat \<Rightarrow> nat \<Rightarrow> jsnum \<times> jsnum" where
  "window dataList l p = foldl wupd (NegInf, PosInf) (take l (drop (Suc p) dataList))"

text \<open>The test \<open>pivotHigh > maxHigh\<close> at candidate \<open>p\<close>.\<close>

definition qual_top :: "bar list \<Rightarrow> nat \<Rightarrow> nat \<Rightarrow> bool" where
  "qual_top dataList l p = js_gt (numval (high (dataList ! p))) (fst (window dataList l p))"

text \<open>The test \<open>pivotLow < minLow\<close> at candidate \<open>p\<close>.\<close>

definition qual_bottom :: "bar list \<Rightarrow> nat \<Rightarrow> nat \<Rightarrow> bool" where
  "qual_bottom dataList l p = js_lt (numval (low (dataList ! p))) (snd (window dataList l p))"

text \<open>The register after candidate \<open>p\<close>.\<close>

definition next_os :: "bar list \<Rightarrow> nat \<Rightarrow> nat \<Rightarrow> os option \<Rightarrow> os option" where
  "next_os dataList l p prevOs =
     (if qual_top dataList l p then Some Top
      else if qual_bottom dataList l p then Some Bottom else prevOs)"

text \<open>The register and the two pivot lists after candidate \<open>p\<close>.\<close>

definition emit :: "bar list \<Rightarrow> nat \<Rightarrow> os option \<times> pivot list \<times> pivot list \<Rightarrow> nat \<Rightarrow> os option \<times> pivot list \<times> pivot list" where
  "emit dataList l st p =
     (case st of (prevOs, hs, ls) \<Rightarrow>
        (let cur = next_os dataList l p prevOs in
         (cur,
          if cur = Some Top \<and> prevOs \<noteq> Some Top
          then hs @ [\<lparr>index = p, price = numval (high (dataList ! p))\<rparr>] else hs,
          if cur = Some Bottom \<and> prevOs \<noteq> Some Bottom
          then ls @ [\<lparr>index = p, price = numval (low (dataList ! p))\<rparr>] else ls)))"

text \<open>The register and the pivot lists after the whole scan.\<close>

definition pscan :: "bar list \<Rightarrow> nat \<Rightarrow> os option \<times> pivot list \<times> pivot list" where
  "pscan dataList l = foldl (emit dataList l) (None, [], []) [0 ..< length dataList - l]"

text \<open>The direction and the classification that a channel name stands for.\<close>

datatype direction = Bull | Bear

datatype classification = BOS | CHoCH

fun key_direction :: "key \<Rightarrow> direction option" where
  "key_direction swingBosBull = Some Bull"
| "key_direction swingBosBear = Some Bear"
| "key_direction swingChochBull = Some Bull"
| "key_direction swingChochBear = Some Bear"
| "key_direction internalBosBull = Some Bull"
| "key_direction internalBosBear = Some Bear"
| "key_direction internalChochBull = Some Bull"
| "key_direction internalChochBear = Some Bear"
| "key_direction swingHighMarker = None"
| "key_direction swingLowMarker = None"

fun key_class :: "key \<Rightarrow> classification option" where
  "key_class swingBosBull = Some BOS"
| "key_class swingBosBear = Some BOS"
| "key_class swingChochBull = Some CHoCH"
| "key_class swingChochBear = Some CHoCH"
| "key_class internalBosBull = Some BOS"
| "key_class internalBosBear = Some BOS"
| "key_class internalChochBull = Some CHoCH"
| "key_class internalChochBear = Some CHoCH"
| "key_class swingHighMarker = None"
| "key_class swingLowMarker = None"

text \<open>The line recorded when pivot \<open>q\<close> is broken at bar \<open>i\<close>.\<close>

definition line_of :: "key \<Rightarrow> pivot \<Rightarrow> nat \<Rightarrow> level \<Rightarrow> pivot_line" where
  "line_of k q i lvl =
     \<lparr>key = k, pivotIndex = index q, breakIndex = i, line_price = price q, level = lvl\<rparr>"

text \<open>The two tests of the break loop: \<open>pivot.index < i && close > pivot.price\<close> and
  \<open>pivot.index < i && close < pivot.price\<close>.\<close>

definition breaks_up :: "nat \<Rightarrow> jsnum \<Rightarrow> pivot \<Rightarrow> bool" where
  "breaks_up i cl q = (index q < i \<and> js_gt cl (price q))"

definition breaks_down :: "nat \<Rightarrow> jsnum \<Rightarrow> pivot \<Rightarrow> bool" where
  "breaks_down i cl q = (index q < i \<and> js_lt cl (price q))"

text \<open>The effect of one check, by the outcome \<open>h\<close> of its scan: on the live list, on the
  trend register, on the recorded lines and on the results.\<close>

definition hit_list :: "(pivot \<times> pivot list) option \<Rightarrow> pivot list \<Rightarrow> pivot list" where
  "hit_list h lst = (case h of None \<Rightarrow> lst | Some (q, r) \<Rightarrow> r)"

definition hit_trend :: "(pivot \<times> pivot list) option \<Rightarrow> trend \<Rightarrow> trend \<Rightarrow> trend" where
  "hit_trend h d tr = (case h of None \<Rightarrow> tr | Some (q, r) \<Rightarrow> d)"

definition hit_line :: "(pivot \<times> pivot list) option \<Rightarrow> key \<Rightarrow> nat \<Rightarrow> level \<Rightarrow> pivot_line list" where
  "hit_line h k i lvl = (case h of None \<Rightarrow> [] | Some (q, r) \<Rightarrow> [line_of k q i lvl])"

definition hit_write :: "(pivot \<times> pivot list) option \<Rightarrow> key \<Rightarrow> nat \<Rightarrow> SmartMoneyResult list \<Rightarrow> SmartMoneyResult list" where
  "hit_write h k i rs = (case h of None \<Rightarrow> rs | Some (q, r) \<Rightarrow> writeRange k (index q) i (price q) rs)"

text \<open>The channel of a level, a classification and a direction.\<close>

fun chan :: "level \<Rightarrow> classification \<Rightarrow> direction \<Rightarrow> key" where
  "chan Swing BOS Bull = swingBosBull"
| "chan Swing BOS Bear = swingBosBear"
| "chan Swing CHoCH Bull = swingChochBull"
| "chan Swing CHoCH Bear = swingChochBear"
| "chan Internal BOS Bull = internalBosBull"
| "chan Internal BOS Bear = internalBosBear"
| "chan Internal CHoCH Bull = internalChochBull"
| "chan Internal CHoCH Bear = internalChochBear"

text \<open>One level on its own: the live highs, the live lows and the trend register. A bar
  of the break loop acts on each level separately; \<open>level_step\<close> is its action on one
  level and \<open>level_run\<close> the run over a list of bars, with the lines they record.\<close>

type_synonym level_state = "pivot list \<times> pivot list \<times> trend"

definition level_step :: "level \<Rightarrow> nat \<Rightarrow> jsnum \<Rightarrow> level_state \<Rightarrow> level_state \<times> pivot_line list" where
  "level_step lvl i cl s =
     (case s of (hs, ls, tr) \<Rightarrow>
        (let hb = first_break (breaks_up i cl) hs;
             kb = chan lvl (if tr = Bearish then CHoCH else BOS) Bull;
             t1 = hit_trend hb Bullish tr;
             hl = first_break (breaks_down i cl) ls;
             kl = chan lvl (if t1 = Bullish then CHoCH else BOS) Bear
         in ((hit_list hb hs, hit_list hl ls, hit_trend hl Bearish t1),
             hit_line hb kb i lvl @ hit_line hl kl i lvl)))"

fun level_of_state :: "level \<Rightarrow> calc_state \<Rightarrow> level_state" where
  "level_of_state Swing st = (swingHighs st, swingLows st, swingTrend st)"
| "level_of_state Internal st = (internalHighs st, internalLows st, internalTrend st)"

fun level_run :: "level \<Rightarrow> bar list \<Rightarrow> level_state \<Rightarrow> nat list \<Rightarrow> level_state \<times> pivot_line list" where
  "level_run lvl dataList s [] = (s, [])"
| "level_run lvl dataList s (i # is) =
     (case level_step lvl i (numval (close (dataList ! i))) s of
        (s1, ev) \<Rightarrow> (case level_run lvl dataList s1 is of (s2, evs) \<Rightarrow> (s2, ev @ evs)))"

text \<open>The scan, stopped after the first \<open>m\<close> candidates.\<close>

definition pscan_upto :: "bar list \<Rightarrow> nat \<Rightarrow> nat \<Rightarrow> os option \<times> pivot list \<times> pivot list" where
  "pscan_upto dataList l m = foldl (emit dataList l) (None, [], []) [0 ..< m]"

text \<open>The lookback of a level.\<close>

fun lookback_of :: "level \<Rightarrow> int \<Rightarrow> int \<Rightarrow> int" where
  "lookback_of Swing swingLength internalLength = swingLength"
| "lookback_of Internal swingLength internalLength = internalLength"

text \<open>The state machine of the specification, replayed over a list of events.\<close>

definition spec_class :: "trend \<Rightarrow> direction \<Rightarrow> classification" where
  "spec_class tr d =
     (case d of Bull \<Rightarrow> (if tr = Bearish then CHoCH else BOS)
              | Bear \<Rightarrow> (if tr = Bullish then CHoCH else BOS))"

fun trend_after :: "direction \<Rightarrow> trend" where
  "trend_after Bull = Bullish"
| "trend_after Bear = Bearish"

fun replay :: "trend \<Rightarrow> pivot_line list \<Rightarrow> trend option" where
  "replay tr [] = Some tr"
| "replay tr (e # es) =
     (case key_direction (key e) of
        None \<Rightarrow> None
      | Some d \<Rightarrow> if key_class (key e) = Some (spec_class tr d) then replay (trend_after d) es else None)"

text \<open>The live list of a level and a direction.\<close>

fun live :: "level \<Rightarrow> direction \<Rightarrow> calc_state \<Rightarrow> pivot list" where
  "live Swing Bull st = swingHighs st"
| "live Swing Bear st = swingLows st"
| "live Internal Bull st = internalHighs st"
| "live Internal Bear st = internalLows st"

text \<open>The scenario of the specification: highs 1, 2, 5, 3, 2, 1, 2, 6, 3 and matching closes.\<close>

definition example_bars :: "bar option list" where
  "example_bars = map (\<lambda>h. Some \<lparr>high = Num (Fin h), low = Num (Fin (h - 1)), close = Num (Fin h)\<rparr>)
     [1, 2, 5, 3, 2, 1, 2, 6, 3]"

text \<open>Three bars whose second bar closes above its own high.\<close>

definition early_bars :: "bar option list" where
  "early_bars =
     [Some \<lparr>high = Num (Fin 5), low = Num (Fin 4), close = Num (Fin 4)\<rparr>,
      Some \<lparr>high = Num (Fin 3), low = Num (Fin 2), close = Num (Fin 6)\<rparr>,
      Some \<lparr>high = Num (Fin 2), low = Num (Fin 1), close = Num (Fin 2)\<rparr>]"

text \<open>
  Five bars whose first bar is an outside bar: with lookback 1 its high is above and its
  low is below those of the bar after it.
\<close>

definition outside_bars :: "bar option list" where
  "outside_bars =
     [Some \<lparr>high = Num (Fin 9), low = Num (Fin 1), close = Num (Fin 5)\<rparr>,
      Some \<lparr>high = Num (Fin 8), low = Num (Fin 4), close = Num (Fin 5)\<rparr>,
      Some \<lparr>high = Num (Fin 10), low = Num (Fin 3), close = Num (Fin 5)\<rparr>,
      Some \<lparr>high = Num (Fin 9), low = Num (Fin 4), close = Num (Fin 5)\<rparr>,
      Some \<lparr>high = Num (Fin 8), low = Num (Fin 5), close = Num (Fin 6)\<rparr>]"

text \<open>A field that holds a finite number, and its value.\<close>

fun is_fin :: "jsval \<Rightarrow> bool" where
  "is_fin (Num (Fin r)) = True"
| "is_fin _ = False"

fun fin_of :: "jsval \<Rightarrow> real" where
  "fin_of (Num (Fin r)) = r"
| "fin_of _ = 0"

text \<open>
  The canonical scan as the specification words it, over the highs \<open>H\<close> and the lows
  \<open>Lo\<close> of the bars: at evaluation index \<open>i\<close> the candidate is \<open>p = i - L\<close>, the window
  is \<open>(p, i]\<close>, the state becomes Top if \<open>H[p]\<close> exceeds the maximum high of the window,
  Bottom if \<open>Lo[p]\<close> is below the minimum low, and stays otherwise; a pivot is emitted
  when the state toggles.
\<close>

definition spec_candidate_state :: "real list \<Rightarrow> real list \<Rightarrow> nat \<Rightarrow> nat \<Rightarrow> os option \<Rightarrow> os option" where
  "spec_candidate_state H Lo L i prev =
     (let p = i - L;
          maxHigh = Max (set (map ((!) H) [Suc p ..< Suc i]));
          minLow = Min (set (map ((!) Lo) [Suc p ..< Suc i]))
      in if H ! p > maxHigh then Some Top
         else if Lo ! p < minLow then Some Bottom
         else prev)"

definition spec_step :: "real list \<Rightarrow> real list \<Rightarrow> nat \<Rightarrow> os option \<times> pivot list \<times> pivot list \<Rightarrow> nat \<Rightarrow> os option \<times> pivot list \<times> pivot list" where
  "spec_step H Lo L st i =
     (case st of (prev, ph, pl) \<Rightarrow>
        (let p = i - L; s = spec_candidate_state H Lo L i prev in
         (s,
          if s = Some Top \<and> prev \<noteq> Some Top then ph @ [\<lparr>index = p, price = Fin (H ! p)\<rparr>] else ph,
          if s = Some Bottom \<and> prev \<noteq> Some Bottom then pl @ [\<lparr>index = p, price = Fin (Lo ! p)\<rparr>] else pl)))"

definition spec_scan :: "real list \<Rightarrow> real list \<Rightarrow> nat \<Rightarrow> os option \<times> pivot list \<times> pivot list" where
  "spec_scan H Lo L = foldl (spec_step H Lo L) (None, [], []) [L ..< length H]"

definition highs_of :: "bar list \<Rightarrow> real list" where
  "highs_of dataList = map (\<lambda>b. fin_of (high b)) dataList"

definition lows_of :: "bar list \<Rightarrow> real list" where
  "lows_of dataList = map (\<lambda>b. fin_of (low b)) dataList"

definition finite_bars :: "bar list \<Rightarrow> bool" where
  "finite_bars dataList = list_all (\<lambda>b. is_fin (high b) \<and> is_fin (low b)) dataList"

text \<open>
  The number of pivots of a scan is the number of times its register changes. \<open>label\<close>
  is what candidate \<open>p\<close> asks the register to become, if anything, and \<open>toggles\<close>
  counts the changes of a register fed a list of labels.
\<close>

definition label :: "bar list \<Rightarrow> nat \<Rightarrow> nat \<Rightarrow> os option" where
  "label dataList l p =
     (if qual_top dataList l p then Some Top
      else if qual_bottom dataList l p then Some Bottom else None)"

fun toggles :: "os option \<Rightarrow> os option list \<Rightarrow> nat" where
  "toggles s [] = 0"
| "toggles s (None # xs) = toggles s xs"
| "toggles s (Some a # xs) = (if s = Some a then 0 else 1) + toggles (Some a) xs"

text \<open>No candidate of the scan with lookback \<open>l\<close> passes both tests.\<close>

definition no_outside_bar :: "bar list \<Rightarrow> nat \<Rightarrow> bool" where
  "no_outside_bar dataList l =
     list_all (\<lambda>p. \<not> (qual_top dataList l p \<and> qual_bottom dataList l p)) [0 ..< length dataList - l]"

definition pivot_count :: "level \<Rightarrow> calc_state \<Rightarrow> nat" where
  "pivot_count lvl st = length (live lvl Bull st) + length (live lvl Bear st)"

text \<open>Two bars appended to the scenario of the specification.\<close>

definition appended_bars :: "bar option list" where
  "appended_bars =
     [Some \<lparr>high = Num (Fin 4), low = Num (Fin 3), close = Num (Fin 4)\<rparr>,
      Some \<lparr>high = Num (Fin 1), low = Num (Fin 0), close = Num (Fin 1)\<rparr>]"

text \<open>All the lines of a list written into the results, each under its own key.\<close>

definition write_all :: "pivot_line list \<Rightarrow> SmartMoneyResult list \<Rightarrow> SmartMoneyResult list" where
  "write_all lines rs =
     foldl (\<lambda>r e. writeRange (key e) (pivotIndex e) (breakIndex e) (line_price e) r) rs lines"




section \<open>Loops and folds\<close>

lemma for_loop_fold:
  assumes "I s"
    and "\<And>k s. a \<le> k \<Longrightarrow> k < b \<Longrightarrow> I s \<Longrightarrow> body (int k) s = Inr (f s k) \<and> I (f s k)"
  shows "for_loop (int a) (int b) body s = Inr (foldl f s [a..<b]) \<and> I (foldl f s [a..<b])"
  using assms
proof (induction "b - a" arbitrary: a s)
  case 0
  then show ?case by (simp add: for_loop.simps)
next
  case (Suc d)
  then have ab: "a < b" by simp
  from Suc.prems ab have st: "body (int a) s = Inr (f s a)" "I (f s a)" by auto
  have "for_loop (int (Suc a)) (int b) body (f s a) = Inr (foldl f (f s a) [Suc a..<b]) \<and> I (foldl f (f s a) [Suc a..<b])"
    using Suc.hyps(1)[of "Suc a" "f s a"] Suc.hyps(2) st(2) Suc.prems(2) by simp
  then have "for_loop (int a + 1) (int b) body (f s a) = Inr (foldl f (f s a) [Suc a..<b]) \<and> I (foldl f (f s a) [Suc a..<b])"
    by (simp add: add.commute)
  then show ?case using ab st(1)
    by (subst for_loop.simps) (simp add: upt_rec[of a b])
qed

lemma error_TypeError: "(e :: error) = TypeError"
  by (cases e) simp

lemma for_loop_fails:
  assumes "a \<le> k" "k < b" "\<And>s. body k s = Inl TypeError"
  shows "for_loop a b body s = Inl TypeError"
  using assms(1)
proof (induction "nat (k - a)" arbitrary: a s)
  case 0
  then have "a = k" by simp
  then show ?case using assms(2,3) by (subst for_loop.simps) simp
next
  case (Suc d)
  then have ak: "a < k" by linarith
  then have ab: "a < b" using assms(2) by simp
  have d: "d = nat (k - (a + 1))" using Suc.hyps(2) by linarith
  have rest: "for_loop (a + 1) b body s1 = Inl TypeError" for s1
    using Suc.hyps(1)[OF d] ak by simp
  show ?case
  proof (cases "body a s")
    case (Inl e)
    with ab show ?thesis by (subst for_loop.simps) (simp add: error_TypeError)
  next
    case (Inr s1)
    with ab rest[of s1] show ?thesis by (subst for_loop.simps) simp
  qed
qed

lemma Number_numval: "v \<noteq> Symbol \<Longrightarrow> Number v = Inr (numval v)"
  by (cases v) (simp_all add: numval_def)

lemma bars_length [simp]: "length (bars dataList) = length dataList"
  by (simp add: bars_def)

lemma bars_append [simp]: "bars (xs @ ys) = bars xs @ bars ys"
  by (simp add: bars_def)

lemma scan_readable_reads:
  assumes "k < length dataList" "scan_readable (dataList ! k)"
  shows "bar_at dataList (int k) = Inr (bars dataList ! k)"
    and "Number (high (bars dataList ! k)) = Inr (numval (high (bars dataList ! k)))"
    and "Number (low (bars dataList ! k)) = Inr (numval (low (bars dataList ! k)))"
  using assms
  by (auto simp: scan_readable_def bar_at_def bars_def Number_numval split: option.splits)

lemma close_readable_reads:
  assumes "k < length dataList" "close_readable (dataList ! k)"
  shows "bar_at dataList (int k) = Inr (bars dataList ! k)"
    and "Number (close (bars dataList ! k)) = Inr (numval (close (bars dataList ! k)))"
  using assms
  by (auto simp: close_readable_def bar_at_def bars_def Number_numval split: option.splits)

lemma window_body_in_range:
  "k < length dataList \<Longrightarrow> scan_readable (dataList ! k) \<Longrightarrow>
     window_body dataList (int k) mm = Inr (wupd mm (bars dataList ! k))"
  by (simp add: window_body_def scan_readable_reads wupd_def Let_def)

lemma window_body_unreadable:
  assumes "k < length dataList" "\<not> scan_readable (dataList ! k)"
  shows "window_body dataList (int k) mm = Inl TypeError"
proof (cases "dataList ! k")
  case None
  with assms(1) show ?thesis by (simp add: window_body_def bar_at_def)
next
  case (Some b)
  with assms(1) have b: "bar_at dataList (int k) = Inr b" by (simp add: bar_at_def)
  from assms(2) Some have "high b = Symbol \<or> low b = Symbol" by (simp add: scan_readable_def)
  then show ?thesis
    by (cases "Number (high b)") (auto simp: window_body_def b error_TypeError)
qed

lemma foldl_nth_upt:
  "b \<le> length xs \<Longrightarrow> foldl (\<lambda>s k. g s (xs ! k)) s [a..<b] = foldl g s (take (b - a) (drop a xs))"
proof -
  assume b: "b \<le> length xs"
  have "map ((!) xs) [a..<b] = take (b - a) (drop a xs)"
    using b by (simp add: list_eq_iff_nth_eq)
  then have "foldl g s (take (b - a) (drop a xs)) = foldl g s (map ((!) xs) [a..<b])" by simp
  also have "\<dots> = foldl (\<lambda>s k. g s (xs ! k)) s [a..<b]" by (simp add: foldl_map)
  finally show ?thesis by simp
qed

lemma for_loop_rel:
  assumes "R s t"
    and "\<And>k s t. a \<le> k \<Longrightarrow> k < b \<Longrightarrow> R s t \<Longrightarrow> \<exists>s'. body (int k) s = Inr s' \<and> R s' (g t k)"
  shows "\<exists>s'. for_loop (int a) (int b) body s = Inr s' \<and> R s' (foldl g t [a..<b])"
  using assms
proof (induction "b - a" arbitrary: a s t)
  case 0
  then show ?case by (simp add: for_loop.simps)
next
  case (Suc d)
  then have ab: "a < b" by simp
  from Suc.prems ab obtain s1 where st: "body (int a) s = Inr s1" "R s1 (g t a)" by blast
  have "\<exists>s'. for_loop (int (Suc a)) (int b) body s1 = Inr s' \<and> R s' (foldl g (g t a) [Suc a..<b])"
    using Suc.hyps(1)[of "Suc a" s1 "g t a"] Suc.hyps(2) st(2) Suc.prems(2) by simp
  then have "\<exists>s'. for_loop (int a + 1) (int b) body s1 = Inr s' \<and> R s' (foldl g (g t a) [Suc a..<b])"
    by (simp add: add.commute)
  then show ?case using ab st(1)
    by (subst for_loop.simps) (simp add: upt_rec[of a b])
qed


lemma window_loop:
  assumes "l \<le> k" "k < length dataList" "list_all scan_readable dataList"
  shows "for_loop (int k - int l + 1) (int k + 1) (window_body dataList) (NegInf, PosInf)
         = Inr (window (bars dataList) l (k - l))"
proof -
  let ?B = "bars dataList"
  have rd: "scan_readable (dataList ! j)" if "j < length dataList" for j
    using assms(3) that by (simp add: list_all_length)
  have "for_loop (int (Suc (k - l))) (int (Suc k)) (window_body dataList) (NegInf, PosInf)
        = Inr (foldl (\<lambda>mm j. wupd mm (?B ! j)) (NegInf, PosInf) [Suc (k - l) ..< Suc k])"
    using for_loop_fold[where I = "\<lambda>_. True" and body = "window_body dataList"
        and f = "\<lambda>mm j. wupd mm (?B ! j)" and a = "Suc (k - l)" and b = "Suc k"] assms(1,2)
    by (simp add: window_body_in_range rd)
  moreover have "foldl (\<lambda>mm j. wupd mm (?B ! j)) (NegInf, PosInf) [Suc (k - l) ..< Suc k]
        = foldl wupd (NegInf, PosInf) (take (Suc k - Suc (k - l)) (drop (Suc (k - l)) ?B))"
    using assms(1,2) by (intro foldl_nth_upt) simp
  moreover have "Suc k - Suc (k - l) = l" using assms(1,2) by simp
  moreover have "int (Suc (k - l)) = int k - int l + 1" "int (Suc k) = int k + 1" using assms(1,2) by simp_all
  ultimately show ?thesis by (simp add: window_def del: of_nat_Suc)
qed

lemma mark_in_range:
  "p < length rs \<Longrightarrow> \<exists>rs'. mark m (int p) v rs = Inr rs' \<and> length rs' = length rs"
  by (cases m) (simp_all add: mark_def set_key_def)

lemma push_pivot_in_range:
  assumes "p < length rs"
  shows "\<exists>rs'. push_pivot c m (int p) v (lst, rs)
            = Inr (if c then lst @ [\<lparr>index = p, price = v\<rparr>] else lst, rs')
          \<and> length rs' = length rs"
proof (cases c)
  case True
  from mark_in_range[OF assms, of m v] obtain rs' where "mark m (int p) v rs = Inr rs'" "length rs' = length rs"
    by blast
  with True show ?thesis by (simp add: push_pivot_def)
next
  case False
  then show ?thesis by (simp add: push_pivot_def)
qed


lemma pivot_body_pure:
  assumes "l \<le> k" "k < length dataList" "length rs = length dataList"
    and "list_all scan_readable dataList"
  shows "\<exists>rs'. pivot_body dataList (int l) hm lm (int k) (prevOs, hs, ls, rs)
           = Inr (fst (emit (bars dataList) l (prevOs, hs, ls) (k - l)),
                  fst (snd (emit (bars dataList) l (prevOs, hs, ls) (k - l))),
                  snd (snd (emit (bars dataList) l (prevOs, hs, ls) (k - l))), rs')
         \<and> length rs' = length dataList"
proof -
  let ?p = "k - l"
  let ?B = "bars dataList"
  have p1: "int k - int l = int ?p" using assms(1) by (rule of_nat_diff[symmetric])
  have p2: "?p < length dataList" using assms(2) by arith
  note p = p1 p2
  have rd: "scan_readable (dataList ! ?p)" using assms(4) p2 by (simp add: list_all_length)
  have w: "for_loop (int ?p + 1) (int k + 1) (window_body dataList) (NegInf, PosInf)
         = Inr (window ?B l ?p)" using window_loop[OF assms(1,2,4)] unfolding p1 .
  let ?ph = "numval (high (?B ! ?p))" and ?pl = "numval (low (?B ! ?p))"
  note b = scan_readable_reads[OF p2 rd]
  define cur where "cur = next_os ?B l ?p prevOs"
  obtain r1 where r1: "push_pivot (cur = Some Top \<and> prevOs \<noteq> Some Top) hm (int ?p) ?ph (hs, rs)
      = Inr (if cur = Some Top \<and> prevOs \<noteq> Some Top then hs @ [\<lparr>index = ?p, price = ?ph\<rparr>] else hs, r1)"
      "length r1 = length dataList"
    using push_pivot_in_range[of ?p rs _ hm ?ph hs] p2 assms(3) by metis
  obtain r2 where r2: "push_pivot (cur = Some Bottom \<and> prevOs \<noteq> Some Bottom) lm (int ?p) ?pl (ls, r1)
      = Inr (if cur = Some Bottom \<and> prevOs \<noteq> Some Bottom then ls @ [\<lparr>index = ?p, price = ?pl\<rparr>] else ls, r2)"
      "length r2 = length dataList"
    using push_pivot_in_range[of ?p r1 _ lm ?pl ls] p2 r1(2) by metis
  have curdef: "(if js_gt ?ph (fst (window ?B l ?p)) then Some Top
        else if js_lt ?pl (snd (window ?B l ?p)) then Some Bottom else prevOs) = cur"
    by (simp add: cur_def next_os_def qual_top_def qual_bottom_def)
  have "pivot_body dataList (int l) hm lm (int k) (prevOs, hs, ls, rs)
         = Inr (cur, if cur = Some Top \<and> prevOs \<noteq> Some Top then hs @ [\<lparr>index = ?p, price = ?ph\<rparr>] else hs,
                 if cur = Some Bottom \<and> prevOs \<noteq> Some Bottom then ls @ [\<lparr>index = ?p, price = ?pl\<rparr>] else ls, r2)"
    unfolding pivot_body_def
    by (simp only: p(1) w b curdef r1 r2 Let_def prod.case sum.case split_beta fst_conv snd_conv)
  moreover have "emit ?B l (prevOs, hs, ls) ?p
      = (cur, if cur = Some Top \<and> prevOs \<noteq> Some Top then hs @ [\<lparr>index = ?p, price = ?ph\<rparr>] else hs,
                 if cur = Some Bottom \<and> prevOs \<noteq> Some Bottom then ls @ [\<lparr>index = ?p, price = ?pl\<rparr>] else ls)"
    by (simp only: emit_def cur_def Let_def prod.case)
  ultimately show ?thesis using r2(2) by simp
qed

lemma upt_shift: "foldl (\<lambda>s k. g s (k - l)) s [l ..< n] = foldl g s [0 ..< n - l]"
proof -
  have "map (\<lambda>k. k - l) [l ..< n] = [0 ..< n - l]"
    by (simp add: list_eq_iff_nth_eq)
  then have "foldl g s [0 ..< n - l] = foldl g s (map (\<lambda>k. k - l) [l ..< n])" by simp
  then show ?thesis by (simp add: foldl_map)
qed


lemma scan_pivots_pure:
  assumes "length rs = length dataList" "list_all scan_readable dataList"
  shows "\<exists>rs'. scan_pivots dataList (int l) hm lm rs
            = Inr (fst (pscan (bars dataList) l), fst (snd (pscan (bars dataList) l)),
                   snd (snd (pscan (bars dataList) l)), rs')
          \<and> length rs' = length dataList"
proof -
  let ?B = "bars dataList"
  define R where "R = (\<lambda>(s :: scan_state) (t :: os option \<times> pivot list \<times> pivot list).
     (case s of (a, b, c, d) \<Rightarrow> (a, b, c) = t \<and> length d = length dataList))"
  have R0: "R (None, [], [], rs) (None, [], [])" using assms(1) by (simp add: R_def)
  have step: "\<exists>s'. pivot_body dataList (int l) hm lm (int k) s = Inr s' \<and> R s' (emit ?B l t (k - l))"
    if "l \<le> k" "k < length dataList" "R s t" for k s t
  proof -
    obtain a b c d where s: "s = (a, b, c, d)" by (cases s)
    with that have t: "t = (a, b, c)" "length d = length dataList" by (simp_all add: R_def)
    from pivot_body_pure[OF that(1,2) t(2) assms(2), of hm lm a b c] show ?thesis
      by (auto simp: s t R_def)
  qed
  from for_loop_rel[of R _ _ l "length dataList" "pivot_body dataList (int l) hm lm" "\<lambda>t k. emit ?B l t (k - l)", OF R0 step]
  obtain s' where s': "for_loop (int l) (int (length dataList)) (pivot_body dataList (int l) hm lm) (None, [], [], rs) = Inr s'"
      "R s' (foldl (\<lambda>t k. emit ?B l t (k - l)) (None, [], []) [l ..< length dataList])"
    by blast
  obtain a b c d where abcd: "s' = (a, b, c, d)" by (cases s')
  with s'(2) have "pscan ?B l = (a, b, c)" "length d = length dataList"
    by (simp_all add: R_def pscan_def upt_shift)
  with s'(1) abcd show ?thesis by (simp add: scan_pivots_def)
qed

lemma scan_pivots_short:
  "int (length dataList) \<le> len \<Longrightarrow> scan_pivots dataList len hm lm rs = Inr (None, [], [], rs)"
  by (simp add: scan_pivots_def for_loop.simps)

lemma pscan_short: "length bs \<le> l \<Longrightarrow> pscan bs l = (None, [], [])"
  by (simp add: pscan_def)

lemma window_loop_empty:
  "len < 0 \<Longrightarrow> for_loop (i - len + 1) (i + 1) body s = Inr s"
  by (subst for_loop.simps) simp


lemma pivot_body_negative_fail:
  assumes "len < 0"
  shows "pivot_body dataList len hm lm (int (length dataList) + len) st = Inl TypeError"
proof -
  obtain prevOs hs ls rs where st: "st = (prevOs, hs, ls, rs)" by (cases st)
  have b: "bar_at dataList (int (length dataList)) = Inl TypeError" by (simp add: bar_at_def)
  have e: "int (length dataList) + len - len = int (length dataList)" by simp
  show ?thesis
    unfolding pivot_body_def st
    using window_loop_empty[OF assms(1), of "int (length dataList) + len" "window_body dataList" "(NegInf, PosInf)"]
    by (simp only: Let_def prod.case sum.case e b)
qed


lemma scan_pivots_negative:
  assumes "len < 0"
  shows "scan_pivots dataList len hm lm rs = Inl TypeError"
  unfolding scan_pivots_def
proof (rule for_loop_fails[where k = "int (length dataList) + len"])
  show "len \<le> int (length dataList) + len" by simp
  show "int (length dataList) + len < int (length dataList)" using assms by simp
  fix s
  show "pivot_body dataList len hm lm (int (length dataList) + len) s = Inl TypeError"
    by (rule pivot_body_negative_fail[OF assms])
qed

lemma pivot_body_unreadable:
  assumes "j < length dataList" "\<not> scan_readable (dataList ! j)" "i - l \<le> j" "j \<le> i" "l \<le> i"
  shows "pivot_body dataList (int l) hm lm (int i) st = Inl TypeError"
proof -
  obtain prevOs hs ls rs where st: "st = (prevOs, hs, ls, rs)" by (cases st)
  have p: "int i - int l = int (i - l)" using assms(5) by (rule of_nat_diff[symmetric])
  let ?w = "for_loop (int (i - l) + 1) (int i + 1) (window_body dataList) (NegInf, PosInf)"
  show ?thesis
  proof (cases "j = i - l")
    case True
    show ?thesis
    proof (cases ?w)
      case (Inl e)
      then show ?thesis unfolding pivot_body_def st by (simp add: Let_def p error_TypeError)
    next
      case (Inr mm)
      obtain maxHigh minLow where mm: "mm = (maxHigh, minLow)" by (cases mm)
      show ?thesis
      proof (cases "dataList ! j")
        case None
        with assms(1) True have "bar_at dataList (int (i - l)) = Inl TypeError" by (simp add: bar_at_def)
        with Inr mm show ?thesis unfolding pivot_body_def st by (simp add: Let_def p)
      next
        case (Some b)
        with assms(1) True have b: "bar_at dataList (int (i - l)) = Inr b" by (simp add: bar_at_def)
        from assms(2) Some have "high b = Symbol \<or> low b = Symbol" by (simp add: scan_readable_def)
        then show ?thesis
          unfolding pivot_body_def st using Inr mm b
          by (cases "Number (high b)") (auto simp: Let_def p error_TypeError)
      qed
    qed
  next
    case False
    with assms(3) have lt: "i - l < j" by simp
    have "?w = Inl TypeError"
    proof (rule for_loop_fails[where k = "int j"])
      show "int (i - l) + 1 \<le> int j" using lt by simp
      show "int j < int i + 1" using assms(4) by simp
      fix s show "window_body dataList (int j) s = Inl TypeError"
        by (rule window_body_unreadable[OF assms(1,2)])
    qed
    then show ?thesis unfolding pivot_body_def st by (simp add: Let_def p)
  qed
qed

lemma scan_pivots_unreadable:
  assumes "l < length dataList" "\<not> list_all scan_readable dataList"
  shows "scan_pivots dataList (int l) hm lm rs = Inl TypeError"
proof -
  from assms(2) obtain j where j: "j < length dataList" "\<not> scan_readable (dataList ! j)"
    by (auto simp: list_all_length)
  define i where "i = (if j < l then l else j)"
  have i: "l \<le> i" "i < length dataList" "i - l \<le> j" "j \<le> i"
    using assms(1) j(1) by (auto simp: i_def)
  show ?thesis
    unfolding scan_pivots_def
  proof (rule for_loop_fails[where k = "int i"])
    show "int l \<le> int i" using i(1) by simp
    show "int i < int (length dataList)" using i(2) by simp
    fix s show "pivot_body dataList (int l) hm lm (int i) s = Inl TypeError"
      by (rule pivot_body_unreadable[OF j i(3,4,1)])
  qed
qed

lemma scan_pivots_returns:
  assumes "scan_returns dataList len" "length rs = length dataList"
  shows "\<exists>rs'. scan_pivots dataList len hm lm rs
            = Inr (fst (pscan (bars dataList) (nat len)), fst (snd (pscan (bars dataList) (nat len))),
                   snd (snd (pscan (bars dataList) (nat len))), rs')
          \<and> length rs' = length dataList"
proof (cases "int (length dataList) \<le> len")
  case True
  then have "length (bars dataList) \<le> nat len" by simp
  from pscan_short[OF this] scan_pivots_short[OF True, of hm lm rs] assms(2) show ?thesis by simp
next
  case False
  with assms(1) have "0 \<le> len" "list_all scan_readable dataList" by (simp_all add: scan_returns_def)
  with scan_pivots_pure[OF assms(2), of "nat len" hm lm] show ?thesis by simp
qed

lemma scan_pivots_fails:
  assumes "\<not> scan_returns dataList len"
  shows "scan_pivots dataList len hm lm rs = Inl TypeError"
proof (cases "len < 0")
  case True
  then show ?thesis by (rule scan_pivots_negative)
next
  case False
  with assms have "nat len < length dataList" "\<not> list_all scan_readable dataList"
    by (auto simp: scan_returns_def)
  from scan_pivots_unreadable[OF this, of hm lm rs] False show ?thesis by simp
qed

lemma scan_pivots_Inr:
  assumes "scan_pivots dataList len hm lm rs = Inr s" "length rs = length dataList"
  shows "scan_returns dataList len
    \<and> (\<exists>rs'. s = (fst (pscan (bars dataList) (nat len)), fst (snd (pscan (bars dataList) (nat len))),
                   snd (snd (pscan (bars dataList) (nat len))), rs')
          \<and> length rs' = length dataList)"
proof -
  have r: "scan_returns dataList len"
  proof (rule ccontr)
    assume "\<not> scan_returns dataList len"
    from scan_pivots_fails[OF this, of hm lm rs] assms(1) show False by simp
  qed
  from scan_pivots_returns[OF r assms(2), of hm lm] assms(1) r show ?thesis by auto
qed

lemma break_step_readable:
  "k < length dataList \<Longrightarrow> close_readable (dataList ! k) \<Longrightarrow>
     break_step dataList (int k) st = Inr (bstep (bars dataList) st k)"
  by (simp add: break_step_def close_readable_reads bstep_def)

lemma break_step_unreadable:
  assumes "k < length dataList" "\<not> close_readable (dataList ! k)"
  shows "break_step dataList (int k) st = Inl TypeError"
proof (cases "dataList ! k")
  case None
  with assms(1) show ?thesis by (simp add: break_step_def bar_at_def)
next
  case (Some b)
  with assms show ?thesis by (simp add: break_step_def bar_at_def close_readable_def)
qed

lemma break_loop_prefix:
  assumes "list_all close_readable dataList" "k \<le> length dataList"
  shows "for_loop 0 (int k) (break_step dataList) st = Inr (foldl (bstep (bars dataList)) st [0 ..< k])"
proof -
  have rd: "close_readable (dataList ! j)" if "j < length dataList" for j
    using assms(1) that by (simp add: list_all_length)
  from for_loop_fold[where I = "\<lambda>_. True" and body = "break_step dataList"
        and f = "bstep (bars dataList)" and a = 0 and b = k and s = st] assms(2)
  show ?thesis by (simp add: break_step_readable rd)
qed

lemma detect_breaks_readable:
  "list_all close_readable dataList \<Longrightarrow> detect_breaks dataList st = Inr (bfold (bars dataList) st)"
  using break_loop_prefix[of dataList "length dataList" st] by (simp add: detect_breaks_def bfold_def)

lemma detect_breaks_unreadable:
  assumes "\<not> list_all close_readable dataList"
  shows "detect_breaks dataList st = Inl TypeError"
proof -
  from assms obtain j where j: "j < length dataList" "\<not> close_readable (dataList ! j)"
    by (auto simp: list_all_length)
  show ?thesis
    unfolding detect_breaks_def
  proof (rule for_loop_fails[where k = "int j"])
    show "0 \<le> int j" by simp
    show "int j < int (length dataList)" using j(1) by simp
    fix s show "break_step dataList (int j) s = Inl TypeError"
      by (rule break_step_unreadable[OF j])
  qed
qed

lemma detect_pivots_cases:
  "(scan_returns dataList swingLength \<and> scan_returns dataList internalLength \<longrightarrow>
      (\<exists>r. detect_pivots dataList swingLength internalLength
        = Inr \<lparr>swingHighs = fst (snd (pscan (bars dataList) (nat swingLength))),
              swingLows = snd (snd (pscan (bars dataList) (nat swingLength))),
              internalHighs = fst (snd (pscan (bars dataList) (nat internalLength))),
              internalLows = snd (snd (pscan (bars dataList) (nat internalLength))),
              swingTrend = Neutral, internalTrend = Neutral, results = r, pivots = []\<rparr>))
   \<and> (\<not> (scan_returns dataList swingLength \<and> scan_returns dataList internalLength) \<longrightarrow>
      detect_pivots dataList swingLength internalLength = Inl TypeError)"
proof -
  let ?r0 = "map (\<lambda>_. Map.empty) dataList :: SmartMoneyResult list"
  have l0: "length ?r0 = length dataList" by simp
  show ?thesis
  proof (cases "scan_returns dataList swingLength")
    case False
    from scan_pivots_fails[OF this, of "Some swingHighMarker" "Some swingLowMarker" ?r0] False
    show ?thesis by (simp add: detect_pivots_def)
  next
    case True
    from scan_pivots_returns[OF True l0, of "Some swingHighMarker" "Some swingLowMarker"]
    obtain r1 where r1: "scan_pivots dataList swingLength (Some swingHighMarker) (Some swingLowMarker) ?r0
        = Inr (fst (pscan (bars dataList) (nat swingLength)), fst (snd (pscan (bars dataList) (nat swingLength))),
                   snd (snd (pscan (bars dataList) (nat swingLength))), r1)" "length r1 = length dataList"
      by blast
    show ?thesis
    proof (cases "scan_returns dataList internalLength")
      case False
      from scan_pivots_fails[OF this, of None None r1] False r1(1)
      show ?thesis by (simp add: detect_pivots_def)
    next
      case i: True
      from scan_pivots_returns[OF i r1(2), of None None]
      obtain r2 where r2: "scan_pivots dataList internalLength None None r1
        = Inr (fst (pscan (bars dataList) (nat internalLength)), fst (snd (pscan (bars dataList) (nat internalLength))),
                   snd (snd (pscan (bars dataList) (nat internalLength))), r2)"
        by blast
      from True i r1(1) r2 show ?thesis by (simp add: detect_pivots_def)
    qed
  qed
qed

lemma calc_cases:
  "(calc_returns_on dataList swingLength internalLength \<longrightarrow>
      (\<exists>st. calc dataList swingLength internalLength = Inr st))
   \<and> (\<not> calc_returns_on dataList swingLength internalLength \<longrightarrow>
      calc dataList swingLength internalLength = Inl TypeError)"
proof (cases "scan_returns dataList swingLength \<and> scan_returns dataList internalLength")
  case False
  with detect_pivots_cases[of dataList swingLength internalLength]
  show ?thesis by (auto simp: calc_def calc_returns_on_def)
next
  case True
  with detect_pivots_cases[of dataList swingLength internalLength] obtain st0 where
    st0: "detect_pivots dataList swingLength internalLength = Inr st0" by blast
  show ?thesis
  proof (cases "list_all close_readable dataList")
    case False
    with detect_breaks_unreadable[OF False, of st0] st0 show ?thesis
      by (simp add: calc_def calc_returns_on_def)
  next
    case c: True
    with detect_breaks_readable[OF c, of st0] st0 True show ?thesis
      by (simp add: calc_def calc_returns_on_def)
  qed
qed

text \<open>The equations that evaluate the model on a concrete input.\<close>

lemmas eval_simps = calc_def detect_pivots_def scan_pivots_def for_loop.simps pivot_body_def
  push_pivot_def window_body_def bar_at_def mark_def set_key_def js_lt_def detect_breaks_def
  break_step_def break_checks_def check_bull_def check_bear_def check_bear_swing_def
  writeRange_def upt_rec run_end.simps has_key_def put_key_def delete_key_def Let_def

lemmas readable_simps = calc_returns_on_def scan_returns_def scan_readable_def close_readable_def

section \<open>C6: what the engine rejects\<close>

lemma close_readable_iff: "close_readable x \<longleftrightarrow> (\<exists>b. x = Some b \<and> close b \<noteq> Symbol)"
  by (cases x) (simp_all add: close_readable_def)

lemma scan_readable_iff:
  "scan_readable x \<longleftrightarrow> (\<exists>b. x = Some b \<and> high b \<noteq> Symbol \<and> low b \<noteq> Symbol)"
  by (cases x) (simp_all add: scan_readable_def)







section \<open>The break loop, level by level\<close>

lemma first_break_find:
  "first_break P xs =
     (case find P xs of None \<Rightarrow> None
      | Some q \<Rightarrow> Some (q, takeWhile (\<lambda>x. \<not> P x) xs @ tl (dropWhile (\<lambda>x. \<not> P x) xs)))"
  by (induction xs) (auto split: option.splits)

lemma first_break_None: "first_break P xs = None \<longleftrightarrow> (\<forall>x\<in>set xs. \<not> P x)"
  by (induction xs) auto

lemma first_break_Some:
  "first_break P xs = Some (q, r) \<Longrightarrow>
     \<exists>pre post. xs = pre @ q # post \<and> r = pre @ post \<and> P q \<and> (\<forall>x\<in>set pre. \<not> P x)"
proof (induction xs arbitrary: r)
  case Nil
  then show ?case by simp
next
  case (Cons x xs)
  show ?case
  proof (cases "P x")
    case True
    with Cons.prems have "q = x" "r = xs" by simp_all
    with True show ?thesis by (intro exI[of _ "[]"] exI[of _ xs]) simp
  next
    case False
    with Cons.prems obtain r' where r': "first_break P xs = Some (q, r')" "r = x # r'"
      by (auto split: option.splits)
    from Cons.IH[OF r'(1)] obtain pre post where
      "xs = pre @ q # post" "r' = pre @ post" "P q" "\<forall>x\<in>set pre. \<not> P x" by blast
    with False r'(2) show ?thesis
      by (intro exI[of _ "x # pre"] exI[of _ post]) simp
  qed
qed

lemma first_break_append:
  "\<forall>x\<in>set ys. \<not> P x \<Longrightarrow>
   first_break P (xs @ ys) = map_option (\<lambda>(q, r). (q, r @ ys)) (first_break P xs)"
proof (induction xs)
  case Nil
  then show ?case by (simp add: first_break_None[THEN iffD2])
next
  case (Cons x xs)
  then show ?case by (cases "first_break P xs") (auto simp: option.map_comp)
qed

lemma check_bull_form:
  "check_bull ck bk lvl i cl (hs, tr, rs, pv) =
     (let h = first_break (breaks_up i cl) hs; k = (if tr = Bearish then ck else bk)
      in (hit_list h hs, hit_trend h Bullish tr, hit_write h k i rs, pv @ hit_line h k i lvl))"
  by (cases "first_break (breaks_up i cl) hs")
     (auto simp: check_bull_def breaks_up_def[abs_def] hit_list_def hit_trend_def hit_write_def
        hit_line_def line_of_def Let_def)

lemma check_bear_form:
  "check_bear ck bk lvl i cl (ls, tr, rs, pv) =
     (let h = first_break (breaks_down i cl) ls; k = (if tr = Bullish then ck else bk)
      in (hit_list h ls, hit_trend h Bearish tr, hit_write h k i rs, pv @ hit_line h k i lvl))"
  by (cases "first_break (breaks_down i cl) ls")
     (auto simp: check_bear_def breaks_down_def[abs_def] hit_list_def hit_trend_def hit_write_def
        hit_line_def line_of_def Let_def)

lemma check_bear_swing_eq: "check_bear_swing ck bk lvl i cl st = check_bear ck bk lvl i cl st"
proof -
  obtain ls tr rs pv where st: "st = (ls, tr, rs, pv)" by (cases st)
  show ?thesis
    unfolding st check_bear_swing_def check_bear_def
    by (cases tr) (auto split: option.splits)
qed

lemma key_direction_chan [simp]: "key_direction (chan lvl c d) = Some d"
  by (cases lvl; cases c; cases d) simp_all

lemma key_class_chan [simp]: "key_class (chan lvl c d) = Some c"
  by (cases lvl; cases c; cases d) simp_all

lemma bstep_level:
  "level_of_state lvl (bstep dataList st i)
     = fst (level_step lvl i (numval (close (dataList ! i))) (level_of_state lvl st))"
proof -
  let ?cl = "numval (close (dataList ! i))"
  obtain sh t1 r1 p1 where c1: "check_bull swingChochBull swingBosBull Swing i ?cl
      (swingHighs st, swingTrend st, results st, pivots st) = (sh, t1, r1, p1)"
    by (metis prod_cases4)
  obtain sl t2 r2 p2 where c2: "check_bear_swing swingChochBear swingBosBear Swing i ?cl
      (swingLows st, t1, r1, p1) = (sl, t2, r2, p2)"
    by (metis prod_cases4)
  obtain ih t3 r3 p3 where c3: "check_bull internalChochBull internalBosBull Internal i ?cl
      (internalHighs st, internalTrend st, r2, p2) = (ih, t3, r3, p3)"
    by (metis prod_cases4)
  obtain il t4 r4 p4 where c4: "check_bear internalChochBear internalBosBear Internal i ?cl
      (internalLows st, t3, r3, p3) = (il, t4, r4, p4)"
    by (metis prod_cases4)
  have bs: "bstep dataList st i = \<lparr>swingHighs = sh, swingLows = sl, internalHighs = ih,
      internalLows = il, swingTrend = t2, internalTrend = t4, results = r4, pivots = p4\<rparr>"
    by (simp add: bstep_def break_checks_def Let_def c1 c2 c3 c4)
  from c1 have sh: "sh = hit_list (first_break (breaks_up i ?cl) (swingHighs st)) (swingHighs st)"
    "t1 = hit_trend (first_break (breaks_up i ?cl) (swingHighs st)) Bullish (swingTrend st)"
    by (simp_all add: check_bull_form Let_def)
  from c2 have sl: "sl = hit_list (first_break (breaks_down i ?cl) (swingLows st)) (swingLows st)"
    "t2 = hit_trend (first_break (breaks_down i ?cl) (swingLows st)) Bearish t1"
    by (simp_all add: check_bear_swing_eq check_bear_form Let_def)
  from c3 have ih: "ih = hit_list (first_break (breaks_up i ?cl) (internalHighs st)) (internalHighs st)"
    "t3 = hit_trend (first_break (breaks_up i ?cl) (internalHighs st)) Bullish (internalTrend st)"
    by (simp_all add: check_bull_form Let_def)
  from c4 have il: "il = hit_list (first_break (breaks_down i ?cl) (internalLows st)) (internalLows st)"
    "t4 = hit_trend (first_break (breaks_down i ?cl) (internalLows st)) Bearish t3"
    by (simp_all add: check_bear_form Let_def)
  show ?thesis
    by (cases lvl) (simp_all add: bs level_step_def Let_def sh sl ih il)
qed

lemma bstep_pivots:
  "pivots (bstep dataList st i)
     = pivots st @ snd (level_step Swing i (numval (close (dataList ! i))) (level_of_state Swing st))
         @ snd (level_step Internal i (numval (close (dataList ! i))) (level_of_state Internal st))"
proof -
  let ?cl = "numval (close (dataList ! i))"
  obtain sh t1 r1 p1 where c1: "check_bull swingChochBull swingBosBull Swing i ?cl
      (swingHighs st, swingTrend st, results st, pivots st) = (sh, t1, r1, p1)"
    by (metis prod_cases4)
  obtain sl t2 r2 p2 where c2: "check_bear_swing swingChochBear swingBosBear Swing i ?cl
      (swingLows st, t1, r1, p1) = (sl, t2, r2, p2)"
    by (metis prod_cases4)
  obtain ih t3 r3 p3 where c3: "check_bull internalChochBull internalBosBull Internal i ?cl
      (internalHighs st, internalTrend st, r2, p2) = (ih, t3, r3, p3)"
    by (metis prod_cases4)
  obtain il t4 r4 p4 where c4: "check_bear internalChochBear internalBosBear Internal i ?cl
      (internalLows st, t3, r3, p3) = (il, t4, r4, p4)"
    by (metis prod_cases4)
  have bs: "bstep dataList st i = \<lparr>swingHighs = sh, swingLows = sl, internalHighs = ih,
      internalLows = il, swingTrend = t2, internalTrend = t4, results = r4, pivots = p4\<rparr>"
    by (simp add: bstep_def break_checks_def Let_def c1 c2 c3 c4)
  let ?hb = "first_break (breaks_up i ?cl) (swingHighs st)"
  from c1 have p1: "p1 = pivots st @ hit_line ?hb (chan Swing (if swingTrend st = Bearish then CHoCH else BOS) Bull) i Swing"
    "t1 = hit_trend ?hb Bullish (swingTrend st)"
    by (auto simp: check_bull_form Let_def)
  from c2 have p2: "p2 = p1 @ hit_line (first_break (breaks_down i ?cl) (swingLows st))
         (chan Swing (if t1 = Bullish then CHoCH else BOS) Bear) i Swing"
    by (auto simp: check_bear_swing_eq check_bear_form Let_def)
  let ?ib = "first_break (breaks_up i ?cl) (internalHighs st)"
  from c3 have p3: "p3 = p2 @ hit_line ?ib (chan Internal (if internalTrend st = Bearish then CHoCH else BOS) Bull) i Internal"
    "t3 = hit_trend ?ib Bullish (internalTrend st)"
    by (auto simp: check_bull_form Let_def)
  from c4 have p4: "p4 = p3 @ hit_line (first_break (breaks_down i ?cl) (internalLows st))
         (chan Internal (if t3 = Bullish then CHoCH else BOS) Bear) i Internal"
    by (auto simp: check_bear_form Let_def)
  show ?thesis
    by (simp add: bs level_step_def Let_def p1 p2 p3 p4)
qed

lemma level_step_events:
  assumes "e \<in> set (snd (level_step lvl i cl s))"
  shows "level e = lvl \<and> breakIndex e = i \<and> pivotIndex e < i \<and> key_direction (key e) \<noteq> None"
proof -
  obtain hs ls tr where s: "s = (hs, ls, tr)" by (cases s)
  have up: "index q < i" if "first_break (breaks_up i cl) hs = Some (q, r)" for q r
    using first_break_Some[OF that] by (auto simp: breaks_up_def)
  have down: "index q < i" if "first_break (breaks_down i cl) ls = Some (q, r)" for q r
    using first_break_Some[OF that] by (auto simp: breaks_down_def)
  from assms show ?thesis
    unfolding s level_step_def Let_def
    by (auto simp: hit_line_def line_of_def split: option.splits dest: up down up[OF sym] down[OF sym])
qed

lemma foldl_bstep_level:
  "level_of_state lvl (foldl (bstep dataList) st is)
      = fst (level_run lvl dataList (level_of_state lvl st) is)
   \<and> filter (\<lambda>e. level e = lvl) (pivots (foldl (bstep dataList) st is))
      = filter (\<lambda>e. level e = lvl) (pivots st) @ snd (level_run lvl dataList (level_of_state lvl st) is)"
proof (induction "is" arbitrary: st)
  case Nil
  then show ?case by simp
next
  case (Cons i "is")
  let ?cl = "numval (close (dataList ! i))"
  let ?st1 = "bstep dataList st i"
  obtain s1 ev where ls: "level_step lvl i ?cl (level_of_state lvl st) = (s1, ev)" by (cases "level_step lvl i ?cl (level_of_state lvl st)")
  have s1: "level_of_state lvl ?st1 = s1" using bstep_level[of lvl dataList st i] ls by simp
  have f: "filter (\<lambda>e. level e = lvl) (pivots ?st1) = filter (\<lambda>e. level e = lvl) (pivots st) @ ev"
  proof -
    have own: "filter (\<lambda>e. level e = lvl) ev = ev"
      using level_step_events[of _ lvl i ?cl "level_of_state lvl st"] ls by (simp add: filter_id_conv)
    have other: "filter (\<lambda>e. level e = l) (snd (level_step l' i ?cl s)) = []" if "l' \<noteq> l" for s l l'
      using level_step_events[of _ l' i ?cl s] that by (auto simp: filter_empty_conv)
    show ?thesis
      using ls own by (cases lvl) (simp_all add: bstep_pivots other)
  qed
  obtain s2 evs where lr: "level_run lvl dataList s1 is = (s2, evs)" by (cases "level_run lvl dataList s1 is")
  from Cons.IH[of ?st1] s1 f lr ls show ?case by simp
qed

lemma pscan_upto_0 [simp]: "pscan_upto dataList l 0 = (None, [], [])"
  by (simp add: pscan_upto_def)

lemma pscan_upto_Suc: "pscan_upto dataList l (Suc m) = emit dataList l (pscan_upto dataList l m) m"
  by (simp add: pscan_upto_def)

lemma pscan_eq_upto: "pscan dataList l = pscan_upto dataList l (length dataList - l)"
  by (simp add: pscan_def pscan_upto_def)

lemma emit_highs:
  "fst (snd (emit dataList l (os, hs, ls) p))
     = (if next_os dataList l p os = Some Top \<and> os \<noteq> Some Top
        then hs @ [\<lparr>index = p, price = numval (high (dataList ! p))\<rparr>] else hs)"
  by (simp add: emit_def Let_def)

lemma emit_lows:
  "snd (snd (emit dataList l (os, hs, ls) p))
     = (if next_os dataList l p os = Some Bottom \<and> os \<noteq> Some Bottom
        then ls @ [\<lparr>index = p, price = numval (low (dataList ! p))\<rparr>] else ls)"
  by (simp add: emit_def Let_def)

lemma emit_os: "fst (emit dataList l (os, hs, ls) p) = next_os dataList l p os"
  by (simp add: emit_def Let_def)

lemma pscan_upto_bounds:
  "(\<forall>q \<in> set (fst (snd (pscan_upto dataList l m))). index q < m)
   \<and> (\<forall>q \<in> set (snd (snd (pscan_upto dataList l m))). index q < m)
   \<and> sorted_wrt (<) (map index (fst (snd (pscan_upto dataList l m))))
   \<and> sorted_wrt (<) (map index (snd (snd (pscan_upto dataList l m))))"
proof (induction m)
  case 0
  then show ?case by simp
next
  case (Suc m)
  obtain os hs ls where s: "pscan_upto dataList l m = (os, hs, ls)" by (cases "pscan_upto dataList l m")
  from Suc s have ih: "\<forall>q\<in>set hs. index q < m" "\<forall>q\<in>set ls. index q < m"
    "sorted_wrt (<) (map index hs)" "sorted_wrt (<) (map index ls)" by simp_all
  show ?case
    unfolding pscan_upto_Suc s emit_highs emit_lows
    using ih by (auto simp: sorted_wrt_append less_Suc_eq)
qed

lemma sorted_wrt_less_distinct: "sorted_wrt (<) (xs :: nat list) \<Longrightarrow> distinct xs"
  by (simp add: strict_sorted_iff)

lemma detect_pivots_Inr:
  assumes "detect_pivots dataList swingLength internalLength = Inr st"
  shows "0 \<le> swingLength \<and> 0 \<le> internalLength
    \<and> swingHighs st = fst (snd (pscan (bars dataList) (nat swingLength)))
    \<and> swingLows st = snd (snd (pscan (bars dataList) (nat swingLength)))
    \<and> internalHighs st = fst (snd (pscan (bars dataList) (nat internalLength)))
    \<and> internalLows st = snd (snd (pscan (bars dataList) (nat internalLength)))
    \<and> swingTrend st = Neutral \<and> internalTrend st = Neutral \<and> pivots st = []
    \<and> scan_returns dataList swingLength \<and> scan_returns dataList internalLength"
proof -
  note c = detect_pivots_cases[of dataList swingLength internalLength]
  from c assms have r: "scan_returns dataList swingLength" "scan_returns dataList internalLength"
    by auto
  with c assms show ?thesis by (auto simp: scan_returns_def)
qed

lemma detect_pivots_returns:
  "scan_returns dataList swingLength \<Longrightarrow> scan_returns dataList internalLength \<Longrightarrow>
     \<exists>st. detect_pivots dataList swingLength internalLength = Inr st"
  using detect_pivots_cases[of dataList swingLength internalLength] by blast

lemma calc_Inr:
  assumes "calc dataList swingLength internalLength = Inr st'"
  shows "\<exists>st. detect_pivots dataList swingLength internalLength = Inr st
           \<and> st' = bfold (bars dataList) st \<and> list_all close_readable dataList"
proof -
  from assms obtain st where st: "detect_pivots dataList swingLength internalLength = Inr st"
    "detect_breaks dataList st = Inr st'"
    by (auto simp: calc_def split: sum.splits)
  have c: "list_all close_readable dataList"
  proof (rule ccontr)
    assume "\<not> list_all close_readable dataList"
    from detect_breaks_unreadable[OF this, of st] st(2) show False by simp
  qed
  from detect_breaks_readable[OF c, of st] st show ?thesis using c by auto
qed

lemma calc_level:
  assumes "calc dataList swingLength internalLength = Inr st"
  defines "l \<equiv> \<lambda>lvl. nat (lookback_of lvl swingLength internalLength)"
  shows "level_of_state lvl st
           = fst (level_run lvl (bars dataList)
               (fst (snd (pscan (bars dataList) (l lvl))), snd (snd (pscan (bars dataList) (l lvl))), Neutral)
               [0 ..< length dataList])"
    and "filter (\<lambda>e. level e = lvl) (pivots st)
           = snd (level_run lvl (bars dataList)
               (fst (snd (pscan (bars dataList) (l lvl))), snd (snd (pscan (bars dataList) (l lvl))), Neutral)
               [0 ..< length dataList])"
proof -
  from calc_Inr[OF assms(1)] obtain st0 where
    st0: "detect_pivots dataList swingLength internalLength = Inr st0" "st = bfold (bars dataList) st0"
    by blast
  note d = detect_pivots_Inr[OF st0(1)]
  have lv: "level_of_state lvl st0
      = (fst (snd (pscan (bars dataList) (l lvl))), snd (snd (pscan (bars dataList) (l lvl))), Neutral)"
    using d by (cases lvl) (simp_all add: l_def)
  from foldl_bstep_level[of lvl "bars dataList" st0 "[0 ..< length dataList]"] d lv
  show "level_of_state lvl st
           = fst (level_run lvl (bars dataList)
               (fst (snd (pscan (bars dataList) (l lvl))), snd (snd (pscan (bars dataList) (l lvl))), Neutral)
               [0 ..< length dataList])"
    and "filter (\<lambda>e. level e = lvl) (pivots st)
           = snd (level_run lvl (bars dataList)
               (fst (snd (pscan (bars dataList) (l lvl))), snd (snd (pscan (bars dataList) (l lvl))), Neutral)
               [0 ..< length dataList])"
    by (simp_all add: st0(2) bfold_def)
qed

lemma replay_append:
  "replay tr (xs @ ys) = (case replay tr xs of None \<Rightarrow> None | Some t \<Rightarrow> replay t ys)"
  by (induction xs arbitrary: tr) (auto split: option.splits)

lemma level_step_replay:
  "level_step lvl i cl (hs, ls, tr) = ((hs1, ls1, t2), ev) \<Longrightarrow> replay tr ev = Some t2"
  by (cases "first_break (breaks_up i cl) hs"; cases "first_break (breaks_down i cl) ls")
     (auto simp: level_step_def Let_def hit_line_def hit_trend_def line_of_def spec_class_def)

lemma level_run_replay:
  "level_run lvl dataList (hs, ls, tr) is = ((hs', ls', tr'), evs) \<Longrightarrow> replay tr evs = Some tr'"
proof (induction "is" arbitrary: hs ls tr evs)
  case Nil
  then show ?case by simp
next
  case (Cons i "is")
  obtain s1 ev where st0: "level_step lvl i (numval (close (dataList ! i))) (hs, ls, tr) = (s1, ev)"
    by (cases "level_step lvl i (numval (close (dataList ! i))) (hs, ls, tr)")
  obtain hs1 ls1 t1 where "s1 = (hs1, ls1, t1)" by (cases s1)
  with st0 have st: "level_step lvl i (numval (close (dataList ! i))) (hs, ls, tr) = ((hs1, ls1, t1), ev)"
    by simp
  obtain s2 evs2 where r: "level_run lvl dataList (hs1, ls1, t1) is = (s2, evs2)" by (metis prod.exhaust)
  from Cons.prems st r have e: "s2 = (hs', ls', tr')" "evs = ev @ evs2" by simp_all
  from Cons.IH[of hs1 ls1 t1 evs2] r e have "replay t1 evs2 = Some tr'" by simp
  with level_step_replay[OF st] e show ?case by (simp add: replay_append)
qed

lemma level_run_events:
  assumes "e \<in> set (snd (level_run lvl dataList s is))"
  shows "level e = lvl \<and> breakIndex e \<in> set is \<and> pivotIndex e < breakIndex e \<and> key_direction (key e) \<noteq> None"
  using assms
proof (induction "is" arbitrary: s)
  case Nil
  then show ?case by simp
next
  case (Cons i "is")
  obtain s1 ev where st: "level_step lvl i (numval (close (dataList ! i))) s = (s1, ev)" by (metis prod.exhaust)
  obtain s2 evs2 where r: "level_run lvl dataList s1 is = (s2, evs2)" by (metis prod.exhaust)
  from Cons.prems st r have "e \<in> set ev \<or> e \<in> set evs2" by auto
  then show ?case
  proof
    assume "e \<in> set ev"
    with level_step_events[of e lvl i "numval (close (dataList ! i))" s] st show ?thesis by simp
  next
    assume "e \<in> set evs2"
    with Cons.IH[of s1] r show ?thesis by simp
  qed
qed

lemma level_step_one_each:
  "length (filter (\<lambda>e. key_direction (key e) = Some d) (snd (level_step lvl i cl s))) \<le> 1"
proof -
  obtain hs ls tr where s: "s = (hs, ls, tr)" by (cases s)
  show ?thesis
    unfolding s
    by (cases "first_break (breaks_up i cl) hs"; cases "first_break (breaks_down i cl) ls"; cases d)
       (auto simp: level_step_def Let_def hit_line_def line_of_def)
qed

lemma level_run_one_per_bar:
  assumes "distinct is"
  shows "length (filter (\<lambda>e. breakIndex e = j \<and> key_direction (key e) = Some d)
            (snd (level_run lvl dataList s is))) \<le> 1"
  using assms
proof (induction "is" arbitrary: s)
  case Nil
  then show ?case by simp
next
  case (Cons i "is")
  let ?P = "\<lambda>e. breakIndex e = j \<and> key_direction (key e) = Some d"
  obtain s1 ev where st: "level_step lvl i (numval (close (dataList ! i))) s = (s1, ev)" by (metis prod.exhaust)
  obtain s2 evs2 where r: "level_run lvl dataList s1 is = (s2, evs2)" by (metis prod.exhaust)
  have ev: "\<forall>e\<in>set ev. breakIndex e = i" using level_step_events[of _ lvl i "numval (close (dataList ! i))" s] st by simp
  have evs2: "\<forall>e\<in>set evs2. breakIndex e \<in> set is" using level_run_events[of _ lvl dataList s1 "is"] r by simp
  show ?case
  proof (cases "j = i")
    case True
    with evs2 Cons.prems have "filter ?P evs2 = []" by (auto simp: filter_empty_conv)
    moreover have "filter ?P ev = filter (\<lambda>e. key_direction (key e) = Some d) ev"
      using ev True by (auto intro: filter_cong)
    moreover have "length (filter (\<lambda>e. key_direction (key e) = Some d) ev) \<le> 1"
      using level_step_one_each[of d lvl i "numval (close (dataList ! i))" s] st by simp
    ultimately show ?thesis using st r by simp
  next
    case False
    with ev have "filter ?P ev = []" by (auto simp: filter_empty_conv)
    moreover have "length (filter ?P evs2) \<le> 1" using Cons.IH[of s1] Cons.prems r by simp
    ultimately show ?thesis using st r by simp
  qed
qed

lemma first_break_distinct:
  assumes "first_break P xs = Some (q, r)" "distinct (map index xs)"
  shows "q \<in> set xs \<and> P q \<and> set r \<subseteq> set xs \<and> distinct (map index r) \<and> index q \<notin> index ` set r"
proof -
  from first_break_Some[OF assms(1)] obtain pre post where
    d: "xs = pre @ q # post" "r = pre @ post" "P q" by blast
  with assms(2) show ?thesis by auto
qed

lemma level_step_consumes:
  assumes "level_step lvl i cl (hs, ls, tr) = ((hs1, ls1, t1), ev)"
    and "distinct (map index hs)" "distinct (map index ls)"
  shows "set hs1 \<subseteq> set hs \<and> set ls1 \<subseteq> set ls \<and> distinct (map index hs1) \<and> distinct (map index ls1)
    \<and> distinct (map (\<lambda>e. (key_direction (key e), pivotIndex e)) ev)
    \<and> (\<forall>e\<in>set ev. (key_direction (key e) = Some Bull \<longrightarrow> pivotIndex e \<in> index ` set hs \<and> pivotIndex e \<notin> index ` set hs1)
                  \<and> (key_direction (key e) = Some Bear \<longrightarrow> pivotIndex e \<in> index ` set ls \<and> pivotIndex e \<notin> index ` set ls1))"
proof -
  let ?hb = "first_break (breaks_up i cl) hs" and ?hl = "first_break (breaks_down i cl) ls"
  have hb: "?hb = None \<or> (\<exists>q r. ?hb = Some (q, r) \<and> q \<in> set hs \<and> set r \<subseteq> set hs \<and> distinct (map index r) \<and> index q \<notin> index ` set r)"
    using first_break_distinct[OF _ assms(2), of "breaks_up i cl"] by (cases ?hb) auto
  have hl: "?hl = None \<or> (\<exists>q r. ?hl = Some (q, r) \<and> q \<in> set ls \<and> set r \<subseteq> set ls \<and> distinct (map index r) \<and> index q \<notin> index ` set r)"
    using first_break_distinct[OF _ assms(3), of "breaks_down i cl"] by (cases ?hl) auto
  from assms(1) have e: "hs1 = hit_list ?hb hs" "ls1 = hit_list ?hl ls"
    "ev = hit_line ?hb (chan lvl (if tr = Bearish then CHoCH else BOS) Bull) i lvl
        @ hit_line ?hl (chan lvl (if hit_trend ?hb Bullish tr = Bullish then CHoCH else BOS) Bear) i lvl"
    by (simp_all add: level_step_def Let_def)
  from hb hl show ?thesis
    unfolding e using assms(2,3)
    by (elim disjE exE conjE) (simp_all add: hit_list_def hit_line_def line_of_def)
qed

lemma level_run_consumes:
  assumes "level_run lvl dataList (hs, ls, tr) is = ((hs', ls', tr'), evs)"
    and "distinct (map index hs)" "distinct (map index ls)"
  shows "set hs' \<subseteq> set hs \<and> set ls' \<subseteq> set ls \<and> distinct (map index hs') \<and> distinct (map index ls')
    \<and> distinct (map (\<lambda>e. (key_direction (key e), pivotIndex e)) evs)
    \<and> (\<forall>e\<in>set evs. (key_direction (key e) = Some Bull \<longrightarrow> pivotIndex e \<in> index ` set hs \<and> pivotIndex e \<notin> index ` set hs')
                   \<and> (key_direction (key e) = Some Bear \<longrightarrow> pivotIndex e \<in> index ` set ls \<and> pivotIndex e \<notin> index ` set ls'))"
  using assms
proof (induction "is" arbitrary: hs ls tr evs)
  case Nil
  then show ?case by simp
next
  case (Cons i "is")
  obtain s1 ev where st0: "level_step lvl i (numval (close (dataList ! i))) (hs, ls, tr) = (s1, ev)"
    by (cases "level_step lvl i (numval (close (dataList ! i))) (hs, ls, tr)")
  obtain hs1 ls1 t1 where "s1 = (hs1, ls1, t1)" by (cases s1)
  with st0 have st: "level_step lvl i (numval (close (dataList ! i))) (hs, ls, tr) = ((hs1, ls1, t1), ev)"
    by simp
  obtain s2 evs2 where r: "level_run lvl dataList (hs1, ls1, t1) is = (s2, evs2)" by (metis prod.exhaust)
  from Cons.prems(1) st r have e: "s2 = (hs', ls', tr')" "evs = ev @ evs2" by simp_all
  note c1 = level_step_consumes[OF st Cons.prems(2,3)]
  from c1 have d1: "distinct (map index hs1)" "distinct (map index ls1)" by simp_all
  note c2 = Cons.IH[OF r[unfolded e(1)] d1]
  have dir: "key_direction (key x) = Some Bull \<or> key_direction (key x) = Some Bear" if "x \<in> set ev \<or> x \<in> set evs2" for x
  proof -
    from that have "key_direction (key x) \<noteq> None"
      using level_step_events[of x lvl i "numval (close (dataList ! i))" "(hs, ls, tr)"] st level_run_events[of x lvl dataList "(hs1, ls1, t1)" "is"] r
      by auto
    then show ?thesis by (cases "key_direction (key x)") (auto intro: direction.exhaust)
  qed
  have disj: "(key_direction (key x), pivotIndex x) \<noteq> (key_direction (key y), pivotIndex y)"
    if "x \<in> set ev" "y \<in> set evs2" for x y
    using dir[of x] that c1 c2 by (metis (no_types, lifting) Pair_inject direction.distinct(1) option.inject)
  show ?case
    unfolding e(2)
    apply (intro conjI)
    subgoal using c1 c2 by blast
    subgoal using c1 c2 by blast
    subgoal using c2 by blast
    subgoal using c2 by blast
    subgoal using c1 c2 disj by (auto simp: distinct_map inj_on_def)
    subgoal using c1 c2 by (auto; blast)
    done
qed

lemma calc_returns:
  "calc_returns_on dataList swingLength internalLength \<Longrightarrow>
     \<exists>st. calc dataList swingLength internalLength = Inr st"
  using calc_cases[of dataList swingLength internalLength] by blast

lemma calc_projr:
  "calc_returns_on dataList swingLength internalLength \<Longrightarrow>
     calc dataList swingLength internalLength = Inr (projr (calc dataList swingLength internalLength))"
  using calc_returns[of dataList swingLength internalLength] by auto

lemma calc_Inr_returns:
  "calc dataList swingLength internalLength = Inr st \<Longrightarrow> calc_returns_on dataList swingLength internalLength"
  using calc_cases[of dataList swingLength internalLength] by auto

lemma calc_one_per_bar:
  assumes "calc dataList swingLength internalLength = Inr st"
  shows "length (filter (\<lambda>e. breakIndex e = i \<and> level e = lvl \<and> key_direction (key e) = Some d) (pivots st)) \<le> 1"
proof -
  have "filter (\<lambda>e. breakIndex e = i \<and> level e = lvl \<and> key_direction (key e) = Some d) (pivots st)
      = filter (\<lambda>e. breakIndex e = i \<and> key_direction (key e) = Some d) (filter (\<lambda>e. level e = lvl) (pivots st))"
    by (auto simp: filter_filter conj_commute conj_left_commute intro: filter_cong)
  then show ?thesis
    using level_run_one_per_bar[of "[0 ..< length dataList]" i d lvl "bars dataList"]
    by (simp add: calc_level(2)[OF assms])
qed

lemma detect_pivots_sorted:
  assumes "detect_pivots dataList swingLength internalLength = Inr st"
  shows "sorted_wrt (<) (map index (live lvl d st))"
  using detect_pivots_Inr[OF assms] pscan_upto_bounds[of "bars dataList" "nat swingLength" "length dataList - nat swingLength"]
    pscan_upto_bounds[of "bars dataList" "nat internalLength" "length dataList - nat internalLength"]
  by (cases lvl; cases d) (simp_all add: pscan_eq_upto)

lemma readable_scan_returns [simp]:
  "list_all scan_readable dataList \<Longrightarrow> 0 \<le> len \<Longrightarrow> scan_returns dataList len"
  by (simp add: scan_returns_def)

lemma readable_calc_returns [simp]:
  "list_all scan_readable dataList \<Longrightarrow> list_all close_readable dataList \<Longrightarrow>
   0 \<le> swingLength \<Longrightarrow> 0 \<le> internalLength \<Longrightarrow>
     calc_returns_on dataList swingLength internalLength"
  by (simp add: calc_returns_on_def)

lemma example_bars_readable [simp]:
  "list_all scan_readable example_bars" "list_all close_readable example_bars"
  by (simp_all add: example_bars_def scan_readable_def close_readable_def)

lemma early_bars_readable [simp]:
  "list_all scan_readable early_bars" "list_all close_readable early_bars"
  by (simp_all add: early_bars_def scan_readable_def close_readable_def)

lemma outside_bars_readable [simp]:
  "list_all scan_readable outside_bars" "list_all close_readable outside_bars"
  by (simp_all add: outside_bars_def scan_readable_def close_readable_def)

lemma appended_bars_readable [simp]:
  "list_all scan_readable appended_bars" "list_all close_readable appended_bars"
  by (simp_all add: appended_bars_def scan_readable_def close_readable_def)

lemma example_pivots:
  "pivots (projr (calc example_bars 2 2)) =
     [\<lparr>key = swingBosBull, pivotIndex = 2, breakIndex = 7, line_price = Fin 5, level = Swing\<rparr>,
      \<lparr>key = internalBosBull, pivotIndex = 2, breakIndex = 7, line_price = Fin 5, level = Internal\<rparr>]"
  by (simp add: example_bars_def eval_simps)

lemma detect_pivots_projr:
  "scan_returns dataList swingLength \<Longrightarrow> scan_returns dataList internalLength \<Longrightarrow>
     detect_pivots dataList swingLength internalLength
       = Inr (projr (detect_pivots dataList swingLength internalLength))"
  using detect_pivots_returns[of dataList swingLength internalLength] by auto

section \<open>C2: classification and the trend register\<close>

text \<open>
  C2. A check that accepts a break records exactly one line and sets the register: a
  bullish break is recorded under the CHoCH key if the register was Bearish and under
  the BOS key otherwise, and sets the register to Bullish; a bearish break is recorded
  under the CHoCH key if the register was Bullish and under the BOS key otherwise, and
  sets the register to Bearish. A check that accepts nothing leaves the register, the
  lists, the lines and the results as they were. Over a whole run, replaying the lines of
  a level through the state machine of the specification from Neutral reproduces every
  classification and ends in the register of that level; so the first line of a level is
  a BOS.
\<close>

theorem classification_follows_trend_register:
  "(check_bull ck bk lvl i cl (hs, tr, rs, pv) = (hs', tr', rs', pv') \<longrightarrow>
      (hs' = hs \<and> tr' = tr \<and> rs' = rs \<and> pv' = pv)
      \<or> (\<exists>q. q \<in> set hs \<and> pv' = pv @ [line_of (if tr = Bearish then ck else bk) q i lvl]
              \<and> tr' = Bullish))
   \<and> (check_bear ck bk lvl i cl (hs, tr, rs, pv) = (hs', tr', rs', pv') \<longrightarrow>
      (hs' = hs \<and> tr' = tr \<and> rs' = rs \<and> pv' = pv)
      \<or> (\<exists>q. q \<in> set hs \<and> pv' = pv @ [line_of (if tr = Bullish then ck else bk) q i lvl]
              \<and> tr' = Bearish))
   \<and> (check_bear_swing ck bk lvl i cl (hs, tr, rs, pv) = (hs', tr', rs', pv') \<longrightarrow>
      (hs' = hs \<and> tr' = tr \<and> rs' = rs \<and> pv' = pv)
      \<or> (\<exists>q. q \<in> set hs \<and> pv' = pv @ [line_of (if tr = Bullish then ck else bk) q i lvl]
              \<and> tr' = Bearish))
   \<and> (calc dataList swingLength internalLength = Inr st \<longrightarrow>
        replay Neutral (filter (\<lambda>e. level e = Swing) (pivots st)) = Some (swingTrend st)
      \<and> replay Neutral (filter (\<lambda>e. level e = Internal) (pivots st)) = Some (internalTrend st))"
proof (intro conjI impI)
  have in_set: "q \<in> set xs" if "first_break P xs = Some (q, r)" for P xs q r
    using first_break_Some[OF that] by auto
  show "(hs' = hs \<and> tr' = tr \<and> rs' = rs \<and> pv' = pv)
      \<or> (\<exists>q. q \<in> set hs \<and> pv' = pv @ [line_of (if tr = Bearish then ck else bk) q i lvl]
              \<and> tr' = Bullish)"
    if "check_bull ck bk lvl i cl (hs, tr, rs, pv) = (hs', tr', rs', pv')"
    using that in_set[of "breaks_up i cl" hs]
    by (cases "first_break (breaks_up i cl) hs")
       (auto simp: check_bull_form Let_def hit_list_def hit_trend_def hit_write_def hit_line_def)
  have bear: "(hs' = hs \<and> tr' = tr \<and> rs' = rs \<and> pv' = pv)
      \<or> (\<exists>q. q \<in> set hs \<and> pv' = pv @ [line_of (if tr = Bullish then ck else bk) q i lvl]
              \<and> tr' = Bearish)"
    if "check_bear ck bk lvl i cl (hs, tr, rs, pv) = (hs', tr', rs', pv')"
    using that in_set[of "breaks_down i cl" hs]
    by (cases "first_break (breaks_down i cl) hs")
       (auto simp: check_bear_form Let_def hit_list_def hit_trend_def hit_write_def hit_line_def)
  then show "(hs' = hs \<and> tr' = tr \<and> rs' = rs \<and> pv' = pv)
      \<or> (\<exists>q. q \<in> set hs \<and> pv' = pv @ [line_of (if tr = Bullish then ck else bk) q i lvl]
              \<and> tr' = Bearish)"
    if "check_bear ck bk lvl i cl (hs, tr, rs, pv) = (hs', tr', rs', pv')"
    using that .
  show "(hs' = hs \<and> tr' = tr \<and> rs' = rs \<and> pv' = pv)
      \<or> (\<exists>q. q \<in> set hs \<and> pv' = pv @ [line_of (if tr = Bullish then ck else bk) q i lvl]
              \<and> tr' = Bearish)"
    if "check_bear_swing ck bk lvl i cl (hs, tr, rs, pv) = (hs', tr', rs', pv')"
    using that bear by (simp add: check_bear_swing_eq)
  have run: "replay Neutral (filter (\<lambda>e. level e = l) (pivots st)) = Some (snd (snd (level_of_state l st)))"
    if c: "calc dataList swingLength internalLength = Inr st" for l
  proof -
    let ?n = "nat (lookback_of l swingLength internalLength)"
    let ?B = "bars dataList"
    let ?s0 = "(fst (snd (pscan ?B ?n)), snd (snd (pscan ?B ?n)), Neutral)"
    obtain s evs where r: "level_run l ?B ?s0 [0 ..< length dataList] = (s, evs)"
      by (cases "level_run l ?B ?s0 [0 ..< length dataList]")
    obtain a b t where s: "s = (a, b, t)" by (cases s)
    from level_run_replay[OF r[unfolded s]] have "replay Neutral evs = Some t" .
    with calc_level[OF c, of l] r s show ?thesis by simp
  qed
  show "replay Neutral (filter (\<lambda>e. level e = Swing) (pivots st)) = Some (swingTrend st)"
    if "calc dataList swingLength internalLength = Inr st"
    using run[OF that, of Swing] by simp
  show "replay Neutral (filter (\<lambda>e. level e = Internal) (pivots st)) = Some (internalTrend st)"
    if "calc dataList swingLength internalLength = Inr st"
    using run[OF that, of Internal] by simp
qed

theorem classification_follows_trend_register_witness:
  "check_bull swingChochBull swingBosBull Swing 3 (Fin 6) ([\<lparr>index = 1, price = Fin 3\<rparr>], Bearish, [], [])
     = ([], Bullish, [],
        [\<lparr>key = swingChochBull, pivotIndex = 1, breakIndex = 3, line_price = Fin 3, level = Swing\<rparr>])
   \<and> check_bear internalChochBear internalBosBear Internal 3 (Fin 6) ([\<lparr>index = 1, price = Fin 9\<rparr>], Neutral, [], [])
     = ([], Bearish, [],
        [\<lparr>key = internalBosBear, pivotIndex = 1, breakIndex = 3, line_price = Fin 9, level = Internal\<rparr>])
   \<and> check_bear_swing swingChochBear swingBosBear Swing 3 (Fin 6) ([\<lparr>index = 1, price = Fin 2\<rparr>], Bullish, [], [])
     = ([\<lparr>index = 1, price = Fin 2\<rparr>], Bullish, [], [])
   \<and> calc example_bars 2 2 = Inr (projr (calc example_bars 2 2))
   \<and> replay Neutral (filter (\<lambda>e. level e = Swing) (pivots (projr (calc example_bars 2 2))))
       = Some (swingTrend (projr (calc example_bars 2 2)))
   \<and> replay Neutral (filter (\<lambda>e. level e = Internal) (pivots (projr (calc example_bars 2 2))))
       = Some (internalTrend (projr (calc example_bars 2 2)))
   \<and> swingTrend (projr (calc example_bars 2 2)) = Bullish"
proof -
  have c: "calc example_bars 2 2 = Inr (projr (calc example_bars 2 2))"
    by (rule calc_projr) simp_all
  note run = classification_follows_trend_register[where dataList = example_bars and swingLength = 2
      and internalLength = 2 and st = "projr (calc example_bars 2 2)",
      THEN conjunct2, THEN conjunct2, THEN conjunct2, rule_format, OF c]
  have e1: "check_bull swingChochBull swingBosBull Swing 3 (Fin 6) ([\<lparr>index = 1, price = Fin 3\<rparr>], Bearish, [], [])
     = ([], Bullish, [],
        [\<lparr>key = swingChochBull, pivotIndex = 1, breakIndex = 3, line_price = Fin 3, level = Swing\<rparr>])"
    by (simp add: check_bull_def writeRange_def has_key_def Let_def)
  have e2: "check_bear internalChochBear internalBosBear Internal 3 (Fin 6) ([\<lparr>index = 1, price = Fin 9\<rparr>], Neutral, [], [])
     = ([], Bearish, [],
        [\<lparr>key = internalBosBear, pivotIndex = 1, breakIndex = 3, line_price = Fin 9, level = Internal\<rparr>])"
    by (simp add: check_bear_def js_lt_def writeRange_def has_key_def Let_def)
  have e3: "check_bear_swing swingChochBear swingBosBear Swing 3 (Fin 6) ([\<lparr>index = 1, price = Fin 2\<rparr>], Bullish, [], [])
     = ([\<lparr>index = 1, price = Fin 2\<rparr>], Bullish, [], [])"
    using classification_follows_trend_register[where ck = swingChochBear and bk = swingBosBear and lvl = Swing
      and i = 3 and cl = "Fin 6" and hs = "[\<lparr>index = 1, price = Fin 2\<rparr>]" and tr = Bullish and rs = "[]" and pv = "[]",
      THEN conjunct2, THEN conjunct2, THEN conjunct1]
    by (simp add: check_bear_swing_def js_lt_def)
  have "swingTrend (projr (calc example_bars 2 2)) = Bullish"
    using run example_pivots by (simp add: spec_class_def)
  with c run e1 e2 e3 show ?thesis by blast
qed

section \<open>C4: a pivot is consumed at most once\<close>

lemma distinct_by_level:
  assumes "\<And>lvl. distinct (map g (filter (\<lambda>e. level e = lvl) xs))"
  shows "distinct (map (\<lambda>e. (level e, g e)) xs)"
  using assms
proof (induction xs)
  case Nil
  then show ?case by simp
next
  case (Cons x xs)
  have tl: "distinct (map g (filter (\<lambda>e. level e = lvl) xs))" for lvl
    using Cons.prems[of lvl] by (cases "level x = lvl") simp_all
  have "(level x, g x) \<notin> (\<lambda>e. (level e, g e)) ` set xs"
  proof
    assume "(level x, g x) \<in> (\<lambda>e. (level e, g e)) ` set xs"
    then obtain y where y: "y \<in> set xs" "level y = level x" "g y = g x" by auto
    from Cons.prems[of "level x"] have "g x \<notin> g ` set (filter (\<lambda>e. level e = level x) xs)" by simp
    moreover from y(1,2) have "y \<in> set (filter (\<lambda>e. level e = level x) xs)" by simp
    then have "g y \<in> g ` set (filter (\<lambda>e. level e = level x) xs)" by (rule imageI)
    ultimately show False unfolding y(3) by blast
  qed
  with Cons.IH[OF tl] show ?case by simp
qed

text \<open>
  C4. Every recorded line has \<open>pivotIndex < breakIndex\<close>; no two lines of a run have the
  same level, direction and pivot index; and the pivot of a recorded line is no longer in
  the live list of its level and direction when the run ends.
\<close>

theorem pivot_consumed_at_most_once:
  assumes "calc dataList swingLength internalLength = Inr st"
  shows "(\<forall>e \<in> set (pivots st). pivotIndex e < breakIndex e)
    \<and> distinct (map (\<lambda>e. (level e, key_direction (key e), pivotIndex e)) (pivots st))
    \<and> (\<forall>e \<in> set (pivots st). \<forall>d. key_direction (key e) = Some d \<longrightarrow>
          pivotIndex e \<notin> index ` set (live (level e) d st))"
proof -
  define l where "l = (\<lambda>lvl. nat (lookback_of lvl swingLength internalLength))"
  define B where "B = bars dataList"
  define s0 where "s0 = (\<lambda>lvl. (fst (snd (pscan B (l lvl))), snd (snd (pscan B (l lvl))), Neutral))"
  have lv: "level_of_state lvl st = fst (level_run lvl B (s0 lvl) [0 ..< length dataList])"
    "filter (\<lambda>e. level e = lvl) (pivots st) = snd (level_run lvl B (s0 lvl) [0 ..< length dataList])" for lvl
    using calc_level[OF assms, of lvl] by (simp_all add: s0_def l_def B_def)
  have ev: "e \<in> set (snd (level_run (level e) B (s0 (level e)) [0 ..< length dataList]))"
    if "e \<in> set (pivots st)" for e
    using that lv(2)[of "level e", symmetric] by simp
  have d0: "distinct (map index (fst (s0 lvl)))" "distinct (map index (fst (snd (s0 lvl))))" for lvl
    using pscan_upto_bounds[of B "l lvl" "length B - l lvl"]
    by (simp_all add: s0_def pscan_eq_upto sorted_wrt_less_distinct)
  have cons: "distinct (map (\<lambda>e. (key_direction (key e), pivotIndex e)) (filter (\<lambda>e. level e = lvl) (pivots st)))
    \<and> (\<forall>e\<in>set (filter (\<lambda>e. level e = lvl) (pivots st)).
          (key_direction (key e) = Some Bull \<longrightarrow> pivotIndex e \<notin> index ` set (live lvl Bull st))
        \<and> (key_direction (key e) = Some Bear \<longrightarrow> pivotIndex e \<notin> index ` set (live lvl Bear st)))" for lvl
  proof -
    obtain hs ls tr where s: "s0 lvl = (hs, ls, tr)" by (cases "s0 lvl")
    obtain s' evs where r: "level_run lvl B (hs, ls, tr) [0 ..< length dataList] = (s', evs)"
      by (cases "level_run lvl B (hs, ls, tr) [0 ..< length dataList]")
    obtain hs' ls' tr' where s': "s' = (hs', ls', tr')" by (cases s')
    from d0[of lvl] s have d: "distinct (map index hs)" "distinct (map index ls)" by simp_all
    note c = level_run_consumes[OF r[unfolded s'] d]
    from lv(1)[of lvl] s r s' have "level_of_state lvl st = (hs', ls', tr')" by simp
    then have live: "live lvl Bull st = hs'" "live lvl Bear st = ls'" by (cases lvl; simp)+
    from lv(2)[of lvl] s r have f: "filter (\<lambda>e. level e = lvl) (pivots st) = evs" by simp
    from c show ?thesis unfolding f live by blast
  qed
  show ?thesis
  proof (intro conjI ballI allI impI)
    fix e assume "e \<in> set (pivots st)"
    from level_run_events[OF ev[OF this]] show "pivotIndex e < breakIndex e" by simp
  next
    show "distinct (map (\<lambda>e. (level e, key_direction (key e), pivotIndex e)) (pivots st))"
      using distinct_by_level[of "\<lambda>e. (key_direction (key e), pivotIndex e)" "pivots st"] cons by blast
  next
    fix e d assume e: "e \<in> set (pivots st)" "key_direction (key e) = Some d"
    then have "e \<in> set (filter (\<lambda>x. level x = level e) (pivots st))" by simp
    with cons[of "level e"] e(2) show "pivotIndex e \<notin> index ` set (live (level e) d st)"
      by (cases d) blast+
  qed
qed

theorem pivot_consumed_at_most_once_witness:
  "calc example_bars 2 2 = Inr (projr (calc example_bars 2 2))
   \<and> pivots (projr (calc example_bars 2 2)) =
     [\<lparr>key = swingBosBull, pivotIndex = 2, breakIndex = 7, line_price = Fin 5, level = Swing\<rparr>,
      \<lparr>key = internalBosBull, pivotIndex = 2, breakIndex = 7, line_price = Fin 5, level = Internal\<rparr>]
   \<and> distinct (map (\<lambda>e. (level e, key_direction (key e), pivotIndex e)) (pivots (projr (calc example_bars 2 2))))
   \<and> 2 \<notin> index ` set (swingHighs (projr (calc example_bars 2 2)))"
proof -
  have c: "calc example_bars 2 2 = Inr (projr (calc example_bars 2 2))"
    by (rule calc_projr) simp_all
  note t = pivot_consumed_at_most_once[OF c]
  from t have "2 \<notin> index ` set (live Swing Bull (projr (calc example_bars 2 2)))"
    by (simp add: example_pivots)
  with t c example_pivots show ?thesis by simp
qed

section \<open>C9: a break before the confirmation bar\<close>

lemma early_pivots:
  "pivots (projr (calc early_bars 2 2)) =
     [\<lparr>key = swingBosBull, pivotIndex = 0, breakIndex = 1, line_price = Fin 5, level = Swing\<rparr>,
      \<lparr>key = internalBosBull, pivotIndex = 0, breakIndex = 1, line_price = Fin 5, level = Internal\<rparr>]"
  by (simp add: early_bars_def eval_simps)

text \<open>
  C9. The break loop starts at bar 0 after both scans have finished, and its test on a
  pivot is only \<open>index < i\<close>. So a line can be recorded at a bar before the bar
  \<open>pivotIndex + L\<close> at which the scan confirmed the pivot: with lookback 2, the pivot high
  of bar 0 is confirmed at bar 2 and broken at bar 1, whose close lies above its own high.
\<close>

theorem break_before_confirmation_bar:
  "\<exists>dataList swingLength internalLength st e.
      calc dataList swingLength internalLength = Inr st \<and> e \<in> set (pivots st)
      \<and> int (breakIndex e) < int (pivotIndex e) + lookback_of (level e) swingLength internalLength"
proof -
  have c: "calc early_bars 2 2 = Inr (projr (calc early_bars 2 2))"
    by (rule calc_projr) simp_all
  let ?e = "\<lparr>key = swingBosBull, pivotIndex = 0, breakIndex = 1, line_price = Fin 5, level = Swing\<rparr>"
  have "?e \<in> set (pivots (projr (calc early_bars 2 2)))" by (simp add: early_pivots)
  moreover have "int (breakIndex ?e) < int (pivotIndex ?e) + lookback_of (level ?e) 2 2" by simp
  ultimately show ?thesis using c by blast
qed

section \<open>C10: one pivot per evaluation index, Top first\<close>

lemma pscan_upto_sound:
  "(\<forall>q \<in> set (fst (snd (pscan_upto dataList l m))).
       index q < m \<and> qual_top dataList l (index q) \<and> price q = numval (high (dataList ! index q)))
   \<and> (\<forall>q \<in> set (snd (snd (pscan_upto dataList l m))).
       index q < m \<and> \<not> qual_top dataList l (index q) \<and> qual_bottom dataList l (index q)
       \<and> price q = numval (low (dataList ! index q)))"
proof (induction m)
  case 0
  then show ?case by simp
next
  case (Suc m)
  obtain os hs ls where s: "pscan_upto dataList l m = (os, hs, ls)" by (cases "pscan_upto dataList l m")
  from Suc s have ih:
    "\<forall>q\<in>set hs. index q < m \<and> qual_top dataList l (index q) \<and> price q = numval (high (dataList ! index q))"
    "\<forall>q\<in>set ls. index q < m \<and> \<not> qual_top dataList l (index q) \<and> qual_bottom dataList l (index q)
       \<and> price q = numval (low (dataList ! index q))" by simp_all
  show ?case
    unfolding pscan_upto_Suc s emit_highs emit_lows
    using ih by (auto simp: next_os_def less_Suc_eq split: if_splits)
qed

lemma pivot_body_Inr:
  assumes "pivot_body dataList len hm lm i (prevOs, hs, ls, rs) = Inr (os', hs', ls', rs')"
  shows "\<exists>maxHigh minLow b pivotHigh pivotLow r1.
      for_loop (i - len + 1) (i + 1) (window_body dataList) (NegInf, PosInf) = Inr (maxHigh, minLow)
    \<and> bar_at dataList (i - len) = Inr b
    \<and> Number (high b) = Inr pivotHigh \<and> Number (low b) = Inr pivotLow
    \<and> os' = (if js_gt pivotHigh maxHigh then Some Top
             else if js_lt pivotLow minLow then Some Bottom else prevOs)
    \<and> push_pivot (os' = Some Top \<and> prevOs \<noteq> Some Top) hm (i - len) pivotHigh (hs, rs) = Inr (hs', r1)
    \<and> push_pivot (os' = Some Bottom \<and> prevOs \<noteq> Some Bottom) lm (i - len) pivotLow (ls, r1) = Inr (ls', rs')"
proof -
  from assms obtain mm where w: "for_loop (i - len + 1) (i + 1) (window_body dataList) (NegInf, PosInf) = Inr mm"
    by (cases "for_loop (i - len + 1) (i + 1) (window_body dataList) (NegInf, PosInf)")
       (simp_all add: pivot_body_def Let_def)
  obtain maxHigh minLow where mm: "mm = (maxHigh, minLow)" by (cases mm)
  from assms w mm obtain b where b: "bar_at dataList (i - len) = Inr b"
    by (cases "bar_at dataList (i - len)") (simp_all add: pivot_body_def Let_def)
  from assms w mm b obtain ph where ph: "Number (high b) = Inr ph"
    by (cases "Number (high b)") (simp_all add: pivot_body_def Let_def)
  from assms w mm b ph obtain pl where pl: "Number (low b) = Inr pl"
    by (cases "Number (low b)") (simp_all add: pivot_body_def Let_def)
  define cur where "cur = (if js_gt ph maxHigh then Some Top
             else if js_lt pl minLow then Some Bottom else prevOs)"
  from assms w mm b ph pl have 1: "(case push_pivot (cur = Some Top \<and> prevOs \<noteq> Some Top) hm (i - len) ph (hs, rs) of
        Inl e \<Rightarrow> Inl e
      | Inr (hs1, r1) \<Rightarrow>
         (case push_pivot (cur = Some Bottom \<and> prevOs \<noteq> Some Bottom) lm (i - len) pl (ls, r1) of
            Inl e \<Rightarrow> Inl e
          | Inr (ls1, r2) \<Rightarrow> Inr (cur, hs1, ls1, r2))) = Inr (os', hs', ls', rs')"
    by (simp only: pivot_body_def Let_def prod.case sum.case cur_def)
  then obtain hs1 r1 where p1: "push_pivot (cur = Some Top \<and> prevOs \<noteq> Some Top) hm (i - len) ph (hs, rs) = Inr (hs1, r1)"
    by (cases "push_pivot (cur = Some Top \<and> prevOs \<noteq> Some Top) hm (i - len) ph (hs, rs)") auto
  with 1 obtain ls1 r2 where p2: "push_pivot (cur = Some Bottom \<and> prevOs \<noteq> Some Bottom) lm (i - len) pl (ls, r1) = Inr (ls1, r2)"
    by (cases "push_pivot (cur = Some Bottom \<and> prevOs \<noteq> Some Bottom) lm (i - len) pl (ls, r1)") auto
  from 1 p1 p2 have r: "os' = cur" "hs' = hs1" "ls' = ls1" "rs' = r2" by simp_all
  show ?thesis
    using w mm b ph pl p1 p2 unfolding r cur_def by blast
qed

lemma pivot_body_shape:
  assumes "pivot_body dataList len hm lm i (prevOs, hs, ls, rs) = Inr (os', hs', ls', rs')"
  shows "\<exists>maxHigh minLow b pivotHigh pivotLow.
      for_loop (i - len + 1) (i + 1) (window_body dataList) (NegInf, PosInf) = Inr (maxHigh, minLow)
    \<and> bar_at dataList (i - len) = Inr b
    \<and> Number (high b) = Inr pivotHigh \<and> Number (low b) = Inr pivotLow
    \<and> os' = (if js_gt pivotHigh maxHigh then Some Top
             else if js_lt pivotLow minLow then Some Bottom else prevOs)
    \<and> hs' = (if os' = Some Top \<and> prevOs \<noteq> Some Top
             then hs @ [\<lparr>index = nat (i - len), price = pivotHigh\<rparr>] else hs)
    \<and> ls' = (if os' = Some Bottom \<and> prevOs \<noteq> Some Bottom
             then ls @ [\<lparr>index = nat (i - len), price = pivotLow\<rparr>] else ls)"
proof -
  from pivot_body_Inr[OF assms] obtain maxHigh minLow b pivotHigh pivotLow r1 where s:
    "for_loop (i - len + 1) (i + 1) (window_body dataList) (NegInf, PosInf) = Inr (maxHigh, minLow)"
    "bar_at dataList (i - len) = Inr b"
    "Number (high b) = Inr pivotHigh" "Number (low b) = Inr pivotLow"
    "os' = (if js_gt pivotHigh maxHigh then Some Top
             else if js_lt pivotLow minLow then Some Bottom else prevOs)"
    "push_pivot (os' = Some Top \<and> prevOs \<noteq> Some Top) hm (i - len) pivotHigh (hs, rs) = Inr (hs', r1)"
    "push_pivot (os' = Some Bottom \<and> prevOs \<noteq> Some Bottom) lm (i - len) pivotLow (ls, r1) = Inr (ls', rs')"
    by blast
  from s(6) have h: "hs' = (if os' = Some Top \<and> prevOs \<noteq> Some Top
             then hs @ [\<lparr>index = nat (i - len), price = pivotHigh\<rparr>] else hs)"
    by (auto simp: push_pivot_def split: if_splits sum.splits)
  from s(7) have l: "ls' = (if os' = Some Bottom \<and> prevOs \<noteq> Some Bottom
             then ls @ [\<lparr>index = nat (i - len), price = pivotLow\<rparr>] else ls)"
    by (auto simp: push_pivot_def split: if_splits sum.splits)
  from s(1-5) h l show ?thesis by blast
qed

text \<open>
  C10. One evaluation index appends at most one pivot: a pivot high, and then the register
  is Top, or a pivot low, and then the register is Bottom, or nothing. When the candidate
  passes both tests the register becomes Top and no pivot low is appended. Over a whole
  scan no two pivots, high or low, have the same index, and a candidate that passes both
  tests is never a pivot low.
\<close>

theorem one_pivot_per_index_top_first:
  "(pivot_body dataList len hm lm i (prevOs, hs, ls, rs) = Inr (os', hs', ls', rs') \<longrightarrow>
      (hs' = hs \<and> ls' = ls)
      \<or> (\<exists>q. hs' = hs @ [q] \<and> ls' = ls \<and> index q = nat (i - len) \<and> os' = Some Top)
      \<or> (\<exists>q. ls' = ls @ [q] \<and> hs' = hs \<and> index q = nat (i - len) \<and> os' = Some Bottom))
   \<and> (pivot_body dataList len hm lm i (prevOs, hs, ls, rs) = Inr (os', hs', ls', rs')
       \<and> for_loop (i - len + 1) (i + 1) (window_body dataList) (NegInf, PosInf) = Inr (maxHigh, minLow)
       \<and> bar_at dataList (i - len) = Inr b
       \<and> Number (high b) = Inr pivotHigh \<and> Number (low b) = Inr pivotLow
       \<and> js_gt pivotHigh maxHigh \<and> js_lt pivotLow minLow \<longrightarrow>
      os' = Some Top \<and> ls' = ls)
   \<and> (detect_pivots dataList swingLength internalLength = Inr st \<longrightarrow>
      distinct (map index (live lvl Bull st @ live lvl Bear st))
      \<and> (\<forall>p. qual_top (bars dataList) (nat (lookback_of lvl swingLength internalLength)) p
              \<and> qual_bottom (bars dataList) (nat (lookback_of lvl swingLength internalLength)) p \<longrightarrow>
             p \<notin> index ` set (live lvl Bear st)))"
proof (intro conjI impI)
  assume a: "pivot_body dataList len hm lm i (prevOs, hs, ls, rs) = Inr (os', hs', ls', rs')"
  from pivot_body_shape[OF a]
  show "(hs' = hs \<and> ls' = ls)
      \<or> (\<exists>q. hs' = hs @ [q] \<and> ls' = ls \<and> index q = nat (i - len) \<and> os' = Some Top)
      \<or> (\<exists>q. ls' = ls @ [q] \<and> hs' = hs \<and> index q = nat (i - len) \<and> os' = Some Bottom)"
    by (auto split: if_splits)
next
  assume "pivot_body dataList len hm lm i (prevOs, hs, ls, rs) = Inr (os', hs', ls', rs')
       \<and> for_loop (i - len + 1) (i + 1) (window_body dataList) (NegInf, PosInf) = Inr (maxHigh, minLow)
       \<and> bar_at dataList (i - len) = Inr b
       \<and> Number (high b) = Inr pivotHigh \<and> Number (low b) = Inr pivotLow
       \<and> js_gt pivotHigh maxHigh \<and> js_lt pivotLow minLow"
  then have a: "pivot_body dataList len hm lm i (prevOs, hs, ls, rs) = Inr (os', hs', ls', rs')"
    and w: "for_loop (i - len + 1) (i + 1) (window_body dataList) (NegInf, PosInf) = Inr (maxHigh, minLow)"
    and b: "bar_at dataList (i - len) = Inr b" and n: "Number (high b) = Inr pivotHigh"
    and t: "js_gt pivotHigh maxHigh" by simp_all
  from pivot_body_shape[OF a] w b n t show "os' = Some Top" "ls' = ls" by auto
next
  assume a: "detect_pivots dataList swingLength internalLength = Inr st"
  let ?l = "nat (lookback_of lvl swingLength internalLength)"
  let ?m = "length dataList - ?l"
  let ?B = "bars dataList"
  have hl: "live lvl Bull st = fst (snd (pscan_upto ?B ?l ?m))"
    "live lvl Bear st = snd (snd (pscan_upto ?B ?l ?m))"
    using detect_pivots_Inr[OF a] by (cases lvl; simp add: pscan_eq_upto)+
  note snd = pscan_upto_sound[of ?B ?l ?m]
  note bnd = pscan_upto_bounds[of ?B ?l ?m]
  have "index ` set (live lvl Bull st) \<inter> index ` set (live lvl Bear st) = {}"
    unfolding hl using snd by fastforce
  then show "distinct (map index (live lvl Bull st @ live lvl Bear st))"
    unfolding hl using bnd by (simp add: sorted_wrt_less_distinct)
  show "\<forall>p. qual_top ?B ?l p \<and> qual_bottom ?B ?l p \<longrightarrow> p \<notin> index ` set (live lvl Bear st)"
    unfolding hl using snd by auto
qed

lemmas window_simps = window_def wupd_def qual_top_def qual_bottom_def js_lt_def bars_def numval_def

theorem one_pivot_per_index_top_first_witness:
  "pivot_body outside_bars 1 None None 1 (None, [], [], [])
      = Inr (Some Top, [\<lparr>index = 0, price = Fin 9\<rparr>], [], [])
   \<and> for_loop 1 2 (window_body outside_bars) (NegInf, PosInf) = Inr (Fin 8, Fin 4)
   \<and> bar_at outside_bars 0 = Inr \<lparr>high = Num (Fin 9), low = Num (Fin 1), close = Num (Fin 5)\<rparr>
   \<and> Number (Num (Fin 9)) = Inr (Fin 9) \<and> Number (Num (Fin 1)) = Inr (Fin 1)
   \<and> js_gt (Fin 9) (Fin 8) \<and> js_lt (Fin 1) (Fin 4)
   \<and> detect_pivots outside_bars 1 2 = Inr (projr (detect_pivots outside_bars 1 2))
   \<and> qual_top (bars outside_bars) 1 0 \<and> qual_bottom (bars outside_bars) 1 0
   \<and> 0 \<notin> index ` set (swingLows (projr (detect_pivots outside_bars 1 2)))
   \<and> distinct (map index (swingHighs (projr (detect_pivots outside_bars 1 2))
                           @ swingLows (projr (detect_pivots outside_bars 1 2))))"
proof -
  have w: "for_loop (1 - 1 + 1) (1 + 1) (window_body outside_bars) (NegInf, PosInf) = Inr (Fin 8, Fin 4)"
    by (simp add: outside_bars_def for_loop.simps window_body_def bar_at_def js_lt_def)
  have b: "bar_at outside_bars (1 - 1) = Inr \<lparr>high = Num (Fin 9), low = Num (Fin 1), close = Num (Fin 5)\<rparr>"
    by (simp add: outside_bars_def bar_at_def)
  have p: "pivot_body outside_bars 1 None None 1 (None, [], [], [])
      = Inr (Some Top, [\<lparr>index = 0, price = Fin 9\<rparr>], [], [])"
    by (simp add: outside_bars_def pivot_body_def for_loop.simps window_body_def bar_at_def
        js_lt_def push_pivot_def mark_def)
  have d: "detect_pivots outside_bars 1 2 = Inr (projr (detect_pivots outside_bars 1 2))"
    by (rule detect_pivots_projr) simp_all
  have q: "qual_top (bars outside_bars) 1 0" "qual_bottom (bars outside_bars) 1 0"
    by (simp_all add: outside_bars_def window_simps)
  note t = one_pivot_per_index_top_first[where dataList = outside_bars and len = 1 and hm = None
      and lm = None and i = 1 and prevOs = None and hs = "[]" and ls = "[]" and rs = "[]"
      and os' = "Some Top" and hs' = "[\<lparr>index = 0, price = Fin 9\<rparr>]" and ls' = "[]" and rs' = "[]"
      and maxHigh = "Fin 8" and minLow = "Fin 4" and pivotHigh = "Fin 9" and pivotLow = "Fin 1"
      and b = "\<lparr>high = Num (Fin 9), low = Num (Fin 1), close = Num (Fin 5)\<rparr>"
      and swingLength = 1 and internalLength = 2
      and st = "projr (detect_pivots outside_bars 1 2)" and lvl = Swing]
  from t d q have "0 \<notin> index ` set (swingLows (projr (detect_pivots outside_bars 1 2)))"
    "distinct (map index (swingHighs (projr (detect_pivots outside_bars 1 2))
                           @ swingLows (projr (detect_pivots outside_bars 1 2))))"
    by simp_all
  with w b p d q show ?thesis by (simp add: js_lt_def)
qed

section \<open>C3: the scan against the specification\<close>

lemma is_fin_numval: "is_fin v \<Longrightarrow> numval v = Fin (fin_of v)"
  by (cases v rule: is_fin.cases) (simp_all add: numval_def)

lemma foldl_wupd_fin:
  assumes "list_all (\<lambda>b. is_fin (high b) \<and> is_fin (low b)) bs"
  shows "foldl wupd (Fin a, Fin c) bs
      = (Fin (fold max (map (\<lambda>b. fin_of (high b)) bs) a), Fin (fold min (map (\<lambda>b. fin_of (low b)) bs) c))"
  using assms
proof (induction bs arbitrary: a c)
  case Nil
  then show ?case by simp
next
  case (Cons b bs)
  then have v: "numval (high b) = Fin (fin_of (high b))" "numval (low b) = Fin (fin_of (low b))"
    by (simp_all add: is_fin_numval)
  have "wupd (Fin a, Fin c) b = (Fin (max (fin_of (high b)) a), Fin (min (fin_of (low b)) c))"
    by (auto simp: wupd_def v js_lt_def max_def min_def)
  with Cons show ?case by simp
qed

lemma foldl_wupd_init:
  assumes "list_all (\<lambda>b. is_fin (high b) \<and> is_fin (low b)) bs" "bs \<noteq> []"
  shows "foldl wupd (NegInf, PosInf) bs
      = (Fin (Max (set (map (\<lambda>b. fin_of (high b)) bs))), Fin (Min (set (map (\<lambda>b. fin_of (low b)) bs))))"
proof -
  from assms(2) obtain b bs' where bs: "bs = b # bs'" by (cases bs) auto
  with assms(1) have v: "numval (high b) = Fin (fin_of (high b))" "numval (low b) = Fin (fin_of (low b))"
    and r: "list_all (\<lambda>b. is_fin (high b) \<and> is_fin (low b)) bs'"
    by (simp_all add: is_fin_numval)
  have "wupd (NegInf, PosInf) b = (Fin (fin_of (high b)), Fin (fin_of (low b)))"
    by (simp add: wupd_def v js_lt_def)
  moreover have "Max (set (map (\<lambda>b. fin_of (high b)) (b # bs')))
      = fold max (map (\<lambda>b. fin_of (high b)) bs') (fin_of (high b))"
    by (simp only: list.map Max.set_eq_fold)
  moreover have "Min (set (map (\<lambda>b. fin_of (low b)) (b # bs')))
      = fold min (map (\<lambda>b. fin_of (low b)) bs') (fin_of (low b))"
    by (simp only: list.map Min.set_eq_fold)
  ultimately show ?thesis
    unfolding bs using foldl_wupd_fin[OF r, of "fin_of (high b)" "fin_of (low b)"]
    by (simp only: foldl_Cons)
qed

lemma window_finite:
  assumes "finite_bars dataList" "0 < l" "p + l < length dataList"
  shows "window dataList l p
     = (Fin (Max (set (map ((!) (highs_of dataList)) [Suc p ..< Suc (p + l)]))),
        Fin (Min (set (map ((!) (lows_of dataList)) [Suc p ..< Suc (p + l)]))))"
proof -
  let ?bs = "take l (drop (Suc p) dataList)"
  have bs: "?bs = map ((!) dataList) [Suc p ..< Suc (p + l)]"
    using assms(3) by (simp add: list_eq_iff_nth_eq del: upt_Suc)
  have ne: "?bs \<noteq> []" using assms(2,3) by simp
  have v: "list_all (\<lambda>b. is_fin (high b) \<and> is_fin (low b)) ?bs"
    using assms(1) unfolding finite_bars_def list_all_iff
    by (meson in_set_dropD in_set_takeD)
  have h: "map (\<lambda>b. fin_of (high b)) ?bs = map ((!) (highs_of dataList)) [Suc p ..< Suc (p + l)]"
    unfolding bs using assms(3) by (simp add: highs_of_def del: upt_Suc)
  have lo: "map (\<lambda>b. fin_of (low b)) ?bs = map ((!) (lows_of dataList)) [Suc p ..< Suc (p + l)]"
    unfolding bs using assms(3) by (simp add: lows_of_def del: upt_Suc)
  show ?thesis
    unfolding window_def using foldl_wupd_init[OF v ne] h lo by simp
qed

lemma emit_spec_step:
  assumes "finite_bars dataList" "0 < l" "l \<le> i" "i < length dataList"
  shows "emit dataList l st (i - l) = spec_step (highs_of dataList) (lows_of dataList) l st i"
proof -
  let ?p = "i - l"
  have p: "?p + l = i" "?p < length dataList" using assms(3,4) by simp_all
  from assms(1) p(2) have f: "is_fin (high (dataList ! ?p))" "is_fin (low (dataList ! ?p))"
    by (simp_all add: finite_bars_def list_all_length)
  have n: "numval (high (dataList ! ?p)) = Fin (highs_of dataList ! ?p)"
    "numval (low (dataList ! ?p)) = Fin (lows_of dataList ! ?p)"
    using f p(2) by (simp_all add: is_fin_numval highs_of_def lows_of_def)
  have w: "window dataList l ?p
     = (Fin (Max (set (map ((!) (highs_of dataList)) [Suc ?p ..< Suc i]))),
        Fin (Min (set (map ((!) (lows_of dataList)) [Suc ?p ..< Suc i]))))"
    using window_finite[OF assms(1,2), of ?p] p assms(4) by simp
  have nx: "next_os dataList l ?p prev = spec_candidate_state (highs_of dataList) (lows_of dataList) l i prev" for prev
    by (simp add: next_os_def qual_top_def qual_bottom_def spec_candidate_state_def Let_def n w js_lt_def)
  obtain prev hs ls where st: "st = (prev, hs, ls)" by (cases st)
  show ?thesis
    unfolding st by (simp add: emit_def spec_step_def Let_def nx n)
qed

lemma pscan_spec_scan:
  assumes "finite_bars dataList" "0 < l"
  shows "pscan dataList l = spec_scan (highs_of dataList) (lows_of dataList) l"
proof -
  have "foldl (emit dataList l) (None, [], []) [0 ..< length dataList - l]
      = foldl (\<lambda>s i. emit dataList l s (i - l)) (None, [], []) [l ..< length dataList]"
    by (rule upt_shift[symmetric])
  also have "\<dots> = foldl (spec_step (highs_of dataList) (lows_of dataList) l) (None, [], []) [l ..< length dataList]"
    by (rule foldl_cong) (simp_all add: emit_spec_step[OF assms])
  finally show ?thesis by (simp add: pscan_def spec_scan_def highs_of_def)
qed

lemma finite_bars_readable: "finite_bars (bars dataList) \<Longrightarrow> list_all scan_readable dataList"
proof -
  assume f: "finite_bars (bars dataList)"
  have "scan_readable (dataList ! k)" if "k < length dataList" for k
  proof -
    from f that have "is_fin (high (bar_of (dataList ! k)))" "is_fin (low (bar_of (dataList ! k)))"
      by (simp_all add: finite_bars_def list_all_length bars_def)
    then show ?thesis
      by (cases "dataList ! k") (auto simp: scan_readable_def)
  qed
  then show ?thesis by (simp add: list_all_length)
qed

text \<open>
  C3. For bars with finite highs and lows and a lookback \<open>L > 0\<close>, one evaluation index
  of the code is one step of the specification's scan, and the pivots that \<open>calc\<close>
  detects at a level are the pivots of the specification's scan over \<open>i = L, ..., n - 1\<close>.
  Where the candidate passes both tests the specification's state is Top, as C10 has it.
\<close>

theorem pivot_scan_refines_specification:
  "(finite_bars (bars dataList) \<and> 0 < L \<and> L \<le> i \<and> i < length dataList
      \<and> pivot_body dataList (int L) hm lm (int i) (prev, hs, ls, rs) = Inr (os', hs', ls', rs') \<longrightarrow>
      (os', hs', ls') = spec_step (highs_of (bars dataList)) (lows_of (bars dataList)) L (prev, hs, ls) i)
   \<and> (finite_bars (bars dataList) \<and> 0 < lookback_of lvl swingLength internalLength
      \<and> detect_pivots dataList swingLength internalLength = Inr st \<longrightarrow>
      (live lvl Bull st, live lvl Bear st)
        = snd (spec_scan (highs_of (bars dataList)) (lows_of (bars dataList))
                 (nat (lookback_of lvl swingLength internalLength))))"
proof (intro conjI impI)
  let ?B = "bars dataList"
  assume a: "finite_bars ?B \<and> 0 < L \<and> L \<le> i \<and> i < length dataList
      \<and> pivot_body dataList (int L) hm lm (int i) (prev, hs, ls, rs) = Inr (os', hs', ls', rs')"
  then have fb: "finite_bars ?B" and L: "0 < L" "L \<le> i" "i < length dataList"
    and pb: "pivot_body dataList (int L) hm lm (int i) (prev, hs, ls, rs) = Inr (os', hs', ls', rs')"
    by simp_all
  note rd = finite_bars_readable[OF fb]
  have il: "int i - int L = int (i - L)" using L(2) by (rule of_nat_diff[symmetric])
  have w: "for_loop (int i - int L + 1) (int i + 1) (window_body dataList) (NegInf, PosInf)
      = Inr (window ?B L (i - L))" by (rule window_loop[OF L(2,3) rd])
  have pl: "i - L < length dataList" using L(3) by arith
  from rd pl have rp: "scan_readable (dataList ! (i - L))" by (simp add: list_all_length)
  note b = scan_readable_reads[OF pl rp, folded il]
  from pivot_body_shape[OF pb] obtain maxHigh minLow b' pivotHigh pivotLow where sh:
    "for_loop (int i - int L + 1) (int i + 1) (window_body dataList) (NegInf, PosInf) = Inr (maxHigh, minLow)"
    "bar_at dataList (int i - int L) = Inr b'"
    "Number (high b') = Inr pivotHigh" "Number (low b') = Inr pivotLow"
    "os' = (if js_gt pivotHigh maxHigh then Some Top
             else if js_lt pivotLow minLow then Some Bottom else prev)"
    "hs' = (if os' = Some Top \<and> prev \<noteq> Some Top
             then hs @ [\<lparr>index = nat (int i - int L), price = pivotHigh\<rparr>] else hs)"
    "ls' = (if os' = Some Bottom \<and> prev \<noteq> Some Bottom
             then ls @ [\<lparr>index = nat (int i - int L), price = pivotLow\<rparr>] else ls)"
    by blast
  from sh(1) w have mm: "window ?B L (i - L) = (maxHigh, minLow)" by simp
  from sh(2) b(1) have b': "b' = ?B ! (i - L)" by simp
  from sh(3,4) b(2,3) have ph: "pivotHigh = numval (high (?B ! (i - L)))"
    "pivotLow = numval (low (?B ! (i - L)))" unfolding b' by simp_all
  have ni: "nat (int i - int L) = i - L" by simp
  have os': "os' = next_os ?B L (i - L) prev"
    unfolding sh(5) ph by (simp add: next_os_def qual_top_def qual_bottom_def mm)
  have "(os', hs', ls') = emit ?B L (prev, hs, ls) (i - L)"
    unfolding sh(6,7) ni ph unfolding os' by (simp add: emit_def Let_def)
  with emit_spec_step[OF fb L(1,2)] L(3)
  show "(os', hs', ls') = spec_step (highs_of ?B) (lows_of ?B) L (prev, hs, ls) i"
    by simp
next
  let ?B = "bars dataList"
  assume a: "finite_bars ?B \<and> 0 < lookback_of lvl swingLength internalLength
      \<and> detect_pivots dataList swingLength internalLength = Inr st"
  then have fb: "finite_bars ?B" and L: "0 < lookback_of lvl swingLength internalLength"
    and d: "detect_pivots dataList swingLength internalLength = Inr st" by simp_all
  let ?l = "nat (lookback_of lvl swingLength internalLength)"
  have "(live lvl Bull st, live lvl Bear st) = snd (pscan ?B ?l)"
    using detect_pivots_Inr[OF d] by (cases lvl) (simp_all add: prod_eq_iff)
  with pscan_spec_scan[OF fb, of ?l] L
  show "(live lvl Bull st, live lvl Bear st)
        = snd (spec_scan (highs_of ?B) (lows_of ?B) ?l)" by simp
qed

theorem pivot_scan_refines_specification_witness:
  "finite_bars (bars example_bars)
   \<and> pivot_body example_bars 2 None None 4 (None, [], [], [])
       = Inr (Some Top, [\<lparr>index = 2, price = Fin 5\<rparr>], [], [])
   \<and> spec_step (highs_of (bars example_bars)) (lows_of (bars example_bars)) 2 (None, [], []) 4
       = (Some Top, [\<lparr>index = 2, price = Fin 5\<rparr>], [])
   \<and> detect_pivots example_bars 2 2 = Inr (projr (detect_pivots example_bars 2 2))
   \<and> snd (spec_scan (highs_of (bars example_bars)) (lows_of (bars example_bars)) 2)
       = (swingHighs (projr (detect_pivots example_bars 2 2)),
          swingLows (projr (detect_pivots example_bars 2 2)))
   \<and> swingHighs (projr (detect_pivots example_bars 2 2)) = [\<lparr>index = 2, price = Fin 5\<rparr>]
   \<and> swingLows (projr (detect_pivots example_bars 2 2))
       = [\<lparr>index = 0, price = Fin 0\<rparr>, \<lparr>index = 5, price = Fin 0\<rparr>]"
proof -
  have fb: "finite_bars (bars example_bars)" by (simp add: finite_bars_def example_bars_def bars_def)
  have pb: "pivot_body example_bars (int 2) None None (int 4) (None, [], [], [])
       = Inr (Some Top, [\<lparr>index = 2, price = Fin 5\<rparr>], [], [])"
    by (simp add: example_bars_def pivot_body_def for_loop.simps window_body_def bar_at_def
        js_lt_def push_pivot_def mark_def)
  have d: "detect_pivots example_bars 2 2 = Inr (projr (detect_pivots example_bars 2 2))"
    by (rule detect_pivots_projr) simp_all
  note t = pivot_scan_refines_specification[where dataList = example_bars and L = 2 and i = 4
      and hm = None and lm = None and prev = None and hs = "[]" and ls = "[]" and rs = "[]"
      and os' = "Some Top" and hs' = "[\<lparr>index = 2, price = Fin 5\<rparr>]" and ls' = "[]" and rs' = "[]"
      and lvl = Swing and swingLength = 2 and internalLength = 2
      and st = "projr (detect_pivots example_bars 2 2)"]
  have len: "(4::nat) < length example_bars" by (simp add: example_bars_def)
  from t[THEN conjunct1] fb pb len
  have s1: "spec_step (highs_of (bars example_bars)) (lows_of (bars example_bars)) 2 (None, [], []) 4
       = (Some Top, [\<lparr>index = 2, price = Fin 5\<rparr>], [])" by simp
  from t[THEN conjunct2] fb d
  have s2: "snd (spec_scan (highs_of (bars example_bars)) (lows_of (bars example_bars)) 2)
       = (swingHighs (projr (detect_pivots example_bars 2 2)),
          swingLows (projr (detect_pivots example_bars 2 2)))" by simp
  have v: "swingHighs (projr (detect_pivots example_bars 2 2)) = [\<lparr>index = 2, price = Fin 5\<rparr>]"
    "swingLows (projr (detect_pivots example_bars 2 2))
       = [\<lparr>index = 0, price = Fin 0\<rparr>, \<lparr>index = 5, price = Fin 0\<rparr>]"
    by (simp_all add: example_bars_def eval_simps)
  from fb pb s1 d s2 v show ?thesis by simp
qed

section \<open>C8: the number of pivots and the lookback\<close>

lemma js_gt_trans: "js_gt a b \<Longrightarrow> js_gt b c \<Longrightarrow> js_gt a c"
  by (cases a; cases b; cases c) simp_all

lemma foldl_wupd_fst: "js_gt h (fst (foldl wupd mm bs)) \<Longrightarrow> js_gt h (fst mm)"
proof (induction bs arbitrary: mm)
  case Nil
  then show ?case by simp
next
  case (Cons b bs)
  from Cons.IH[of "wupd mm b"] Cons.prems have "js_gt h (fst (wupd mm b))" by simp
  then show ?case by (auto simp: wupd_def split: if_splits intro: js_gt_trans)
qed

lemma foldl_wupd_snd: "js_lt l (snd (foldl wupd mm bs)) \<Longrightarrow> js_lt l (snd mm)"
proof (induction bs arbitrary: mm)
  case Nil
  then show ?case by simp
next
  case (Cons b bs)
  from Cons.IH[of "wupd mm b"] Cons.prems have "js_lt l (snd (wupd mm b))" by simp
  then show ?case by (auto simp: wupd_def js_lt_def split: if_splits intro: js_gt_trans)
qed

lemma window_longer:
  assumes "l1 \<le> l2"
  shows "window dataList l2 p
     = foldl wupd (window dataList l1 p) (take (l2 - l1) (drop l1 (drop (Suc p) dataList)))"
proof -
  have "take l2 (drop (Suc p) dataList)
      = take l1 (drop (Suc p) dataList) @ take (l2 - l1) (drop l1 (drop (Suc p) dataList))"
    using assms take_add[of l1 "l2 - l1" "drop (Suc p) dataList"] by simp
  then show ?thesis by (simp add: window_def)
qed

lemma qual_top_shorter: "l1 \<le> l2 \<Longrightarrow> qual_top dataList l2 p \<Longrightarrow> qual_top dataList l1 p"
  unfolding qual_top_def by (subst (asm) window_longer[of l1 l2]) (auto dest: foldl_wupd_fst)

lemma qual_bottom_shorter: "l1 \<le> l2 \<Longrightarrow> qual_bottom dataList l2 p \<Longrightarrow> qual_bottom dataList l1 p"
  unfolding qual_bottom_def by (subst (asm) window_longer[of l1 l2]) (auto dest: foldl_wupd_snd)

lemma next_os_label:
  "next_os dataList l p prev = (case label dataList l p of None \<Rightarrow> prev | Some a \<Rightarrow> Some a)"
  by (simp add: next_os_def label_def)

lemma foldl_emit_count:
  "foldl (emit dataList l) (prev, hs, ls) ps = (os', hs', ls') \<Longrightarrow>
     length hs' + length ls' = length hs + length ls + toggles prev (map (label dataList l) ps)"
proof (induction ps arbitrary: prev hs ls)
  case Nil
  then show ?case by simp
next
  case (Cons p ps)
  obtain o1 h1 l1 where e: "emit dataList l (prev, hs, ls) p = (o1, h1, l1)"
    by (cases "emit dataList l (prev, hs, ls) p")
  from Cons.prems e have "foldl (emit dataList l) (o1, h1, l1) ps = (os', hs', ls')" by simp
  from Cons.IH[OF this] have ih: "length hs' + length ls' = length h1 + length l1 + toggles o1 (map (label dataList l) ps)" .
  show ?case
  proof (cases "label dataList l p")
    case None
    with e have "o1 = prev" "h1 = hs" "l1 = ls"
      by (auto simp: emit_def Let_def next_os_label)
    with ih None show ?thesis by simp
  next
    case (Some a)
    with e have o1: "o1 = Some a" by (auto simp: emit_def Let_def next_os_label)
    from e Some have "length h1 + length l1 = length hs + length ls + (if prev = Some a then 0 else 1)"
      by (cases a) (auto simp: emit_def Let_def next_os_label)
    with ih Some o1 show ?thesis by simp
  qed
qed

lemma toggles_erase:
  assumes "length ys \<le> length xs" "\<forall>k < length ys. ys ! k = None \<or> ys ! k = xs ! k"
  shows "toggles s2 ys \<le> toggles s1 xs + (if s1 = s2 then 0 else 1)"
  using assms
proof (induction ys arbitrary: xs s1 s2)
  case Nil
  then show ?case by simp
next
  case (Cons y ys)
  then obtain x xs' where xs: "xs = x # xs'" by (cases xs) auto
  from Cons.prems xs have len: "length ys \<le> length xs'" by simp
  from Cons.prems(2) xs have hd: "y = None \<or> y = x" and
    tl: "\<forall>k < length ys. ys ! k = None \<or> ys ! k = xs' ! k" by force+
  note ih = Cons.IH[OF len tl]
  show ?case
  proof (cases x)
    case None
    with hd have "y = None" by simp
    with None xs ih[of s2 s1] show ?thesis by simp
  next
    case (Some a)
    show ?thesis
    proof (cases y)
      case None
      with Some xs ih[of s2 "Some a"] show ?thesis by (auto split: if_splits)
    next
      case (Some b)
      with hd \<open>x = Some a\<close> have "b = a" by simp
      with Some \<open>x = Some a\<close> xs ih[of "Some a" "Some a"] show ?thesis by (auto split: if_splits)
    qed
  qed
qed

lemma pscan_count:
  "length (fst (snd (pscan dataList l))) + length (snd (snd (pscan dataList l)))
     = toggles None (map (label dataList l) [0 ..< length dataList - l])"
proof -
  obtain os' hs' ls' where p: "pscan dataList l = (os', hs', ls')" by (cases "pscan dataList l")
  from foldl_emit_count[OF p[unfolded pscan_def]] p show ?thesis by simp
qed

lemma pscan_count_mono:
  assumes "l1 \<le> l2" "no_outside_bar dataList l1"
  shows "length (fst (snd (pscan dataList l2))) + length (snd (snd (pscan dataList l2)))
     \<le> length (fst (snd (pscan dataList l1))) + length (snd (snd (pscan dataList l1)))"
proof -
  let ?ys = "map (label dataList l2) [0 ..< length dataList - l2]"
  let ?xs = "map (label dataList l1) [0 ..< length dataList - l1]"
  have len: "length ?ys \<le> length ?xs" using assms(1) by simp
  have er: "\<forall>k < length ?ys. ?ys ! k = None \<or> ?ys ! k = ?xs ! k"
  proof (intro allI impI)
    fix k assume "k < length ?ys"
    then have k: "k < length dataList - l2" "k < length dataList - l1" using assms(1) by simp_all
    from assms(2) k(2) have nb: "\<not> (qual_top dataList l1 k \<and> qual_bottom dataList l1 k)"
      by (simp add: no_outside_bar_def list_all_iff)
    have "label dataList l2 k = None \<or> label dataList l2 k = label dataList l1 k"
      using nb qual_top_shorter[OF assms(1), of dataList k] qual_bottom_shorter[OF assms(1), of dataList k]
      by (auto simp: label_def)
    with k show "?ys ! k = None \<or> ?ys ! k = ?xs ! k" by simp
  qed
  from toggles_erase[OF len er, of None None] show ?thesis by (simp add: pscan_count)
qed

text \<open>
  C8, as the code has it. When no candidate of the scan with the shorter lookback passes
  both tests, the scan with the longer lookback detects no more pivots (highs plus lows)
  than the scan with the shorter one.
\<close>

theorem longer_lookback_no_more_pivots:
  assumes "detect_pivots dataList swingLength1 internalLength1 = Inr st1"
    and "detect_pivots dataList swingLength2 internalLength2 = Inr st2"
    and "lookback_of lvl swingLength1 internalLength1 < lookback_of lvl swingLength2 internalLength2"
    and "no_outside_bar (bars dataList) (nat (lookback_of lvl swingLength1 internalLength1))"
  shows "pivot_count lvl st2 \<le> pivot_count lvl st1"
proof -
  let ?l1 = "nat (lookback_of lvl swingLength1 internalLength1)"
  let ?l2 = "nat (lookback_of lvl swingLength2 internalLength2)"
  note d1 = detect_pivots_Inr[OF assms(1)]
  note d2 = detect_pivots_Inr[OF assms(2)]
  have c1: "pivot_count lvl st1 = length (fst (snd (pscan (bars dataList) ?l1))) + length (snd (snd (pscan (bars dataList) ?l1)))"
    using d1 by (cases lvl) (simp_all add: pivot_count_def)
  have c2: "pivot_count lvl st2 = length (fst (snd (pscan (bars dataList) ?l2))) + length (snd (snd (pscan (bars dataList) ?l2)))"
    using d2 by (cases lvl) (simp_all add: pivot_count_def)
  have "?l1 \<le> ?l2" using assms(3) by simp
  from pscan_count_mono[OF this assms(4)] show ?thesis by (simp add: c1 c2)
qed

theorem longer_lookback_no_more_pivots_witness:
  "detect_pivots example_bars 2 2 = Inr (projr (detect_pivots example_bars 2 2))
   \<and> detect_pivots example_bars 3 2 = Inr (projr (detect_pivots example_bars 3 2))
   \<and> no_outside_bar (bars example_bars) 2
   \<and> pivot_count Swing (projr (detect_pivots example_bars 3 2))
       \<le> pivot_count Swing (projr (detect_pivots example_bars 2 2))
   \<and> pivot_count Swing (projr (detect_pivots example_bars 2 2)) = 3"
proof -
  have d1: "detect_pivots example_bars 2 2 = Inr (projr (detect_pivots example_bars 2 2))"
    by (rule detect_pivots_projr) simp_all
  have d2: "detect_pivots example_bars 3 2 = Inr (projr (detect_pivots example_bars 3 2))"
    by (rule detect_pivots_projr) simp_all
  have nb: "no_outside_bar (bars example_bars) (nat (lookback_of Swing 2 2))"
    by (simp add: no_outside_bar_def example_bars_def window_simps upt_rec)
  have lt: "lookback_of Swing 2 2 < lookback_of Swing 3 2" by simp
  note t = longer_lookback_no_more_pivots[OF d1 d2 lt nb]
  have c: "pivot_count Swing (projr (detect_pivots example_bars 2 2)) = 3"
    by (simp add: pivot_count_def example_bars_def eval_simps)
  from d1 d2 nb t c show ?thesis by simp
qed

text \<open>
  Against C8 as stated: on five bars whose first bar is an outside bar, the scan with
  lookback 1 detects one pivot and the scan with lookback 2 detects two.
\<close>

theorem longer_lookback_more_pivots:
  "\<not> isl (detect_pivots outside_bars 1 1) \<and> \<not> isl (detect_pivots outside_bars 2 1)
   \<and> pivot_count Swing (projr (detect_pivots outside_bars 1 1)) = 1
   \<and> pivot_count Swing (projr (detect_pivots outside_bars 2 1)) = 2"
  by (simp add: pivot_count_def outside_bars_def eval_simps)

section \<open>C7: recomputation after bars are appended\<close>

lemma window_append:
  assumes "p + l < length dataList"
  shows "window (dataList @ ext) l p = window dataList l p"
proof -
  have t: "take l (drop (Suc p) (dataList @ ext)) = take l (drop (Suc p) dataList)"
    using assms by simp
  show ?thesis by (simp only: window_def t)
qed

lemma emit_append:
  assumes "p + l < length dataList"
  shows "emit (dataList @ ext) l s p = emit dataList l s p"
proof -
  have p: "p < length dataList" using assms by simp
  show ?thesis
    by (cases s) (simp add: nth_append p emit_def Let_def next_os_def qual_top_def qual_bottom_def window_append[OF assms])
qed

lemma pscan_upto_append:
  "m \<le> length dataList - l \<Longrightarrow> pscan_upto (dataList @ ext) l m = pscan_upto dataList l m"
proof (induction m)
  case 0
  then show ?case by simp
next
  case (Suc m)
  then have "m + l < length dataList" by simp
  with Suc show ?case by (simp add: pscan_upto_Suc emit_append)
qed

lemma pscan_upto_extend:
  assumes "m \<le> m'"
  shows "\<exists>mh ml. fst (snd (pscan_upto dataList l m')) = fst (snd (pscan_upto dataList l m)) @ mh
      \<and> snd (snd (pscan_upto dataList l m')) = snd (snd (pscan_upto dataList l m)) @ ml
      \<and> (\<forall>q \<in> set mh \<union> set ml. m \<le> index q)"
  using assms
proof (induction m')
  case 0
  then show ?case by simp
next
  case (Suc m')
  show ?case
  proof (cases "m = Suc m'")
    case True
    then show ?thesis by simp
  next
    case False
    with Suc.prems have le: "m \<le> m'" by simp
    from Suc.IH[OF le] obtain mh ml where ih:
      "fst (snd (pscan_upto dataList l m')) = fst (snd (pscan_upto dataList l m)) @ mh"
      "snd (snd (pscan_upto dataList l m')) = snd (snd (pscan_upto dataList l m)) @ ml"
      "\<forall>q \<in> set mh \<union> set ml. m \<le> index q" by blast
    obtain os hs ls where s: "pscan_upto dataList l m' = (os, hs, ls)" by (cases "pscan_upto dataList l m'")
    let ?top = "next_os dataList l m' os = Some Top \<and> os \<noteq> Some Top"
    let ?bot = "next_os dataList l m' os = Some Bottom \<and> os \<noteq> Some Bottom"
    let ?mh = "mh @ (if ?top then [\<lparr>index = m', price = numval (high (dataList ! m'))\<rparr>] else [])"
    let ?ml = "ml @ (if ?bot then [\<lparr>index = m', price = numval (low (dataList ! m'))\<rparr>] else [])"
    have "fst (snd (pscan_upto dataList l (Suc m'))) = fst (snd (pscan_upto dataList l m)) @ ?mh"
      unfolding pscan_upto_Suc s emit_highs using ih(1) s by simp
    moreover have "snd (snd (pscan_upto dataList l (Suc m'))) = snd (snd (pscan_upto dataList l m)) @ ?ml"
      unfolding pscan_upto_Suc s emit_lows using ih(2) s by simp
    moreover have "\<forall>q \<in> set ?mh \<union> set ?ml. m \<le> index q" using ih(3) le by auto
    ultimately show ?thesis by blast
  qed
qed

lemma pscan_append:
  "\<exists>mh ml. fst (snd (pscan (dataList @ ext) l)) = fst (snd (pscan dataList l)) @ mh
      \<and> snd (snd (pscan (dataList @ ext) l)) = snd (snd (pscan dataList l)) @ ml
      \<and> (\<forall>q \<in> set mh \<union> set ml. length dataList - l \<le> index q)"
proof -
  have le: "length dataList - l \<le> length (dataList @ ext) - l" by simp
  from pscan_upto_extend[OF le, of "dataList @ ext" l]
  show ?thesis by (simp only: pscan_eq_upto pscan_upto_append[OF order_refl])
qed

lemma level_run_append:
  "level_run lvl dataList s (xs @ ys)
     = (case level_run lvl dataList s xs of
          (s1, e1) \<Rightarrow> (case level_run lvl dataList s1 ys of (s2, e2) \<Rightarrow> (s2, e1 @ e2)))"
  by (induction xs arbitrary: s) (auto split: prod.splits)

lemma level_run_cong_bars:
  "\<forall>i \<in> set is. dataList' ! i = dataList ! i \<Longrightarrow>
     level_run lvl dataList' s is = level_run lvl dataList s is"
  by (induction "is" arbitrary: s) (auto split: prod.splits)

lemma level_step_extra:
  assumes "\<forall>q \<in> set mh \<union> set ml. i \<le> index q"
    and "level_step lvl i cl (hs, ls, tr) = ((h1, l1, t1), ev)"
  shows "level_step lvl i cl (hs @ mh, ls @ ml, tr) = ((h1 @ mh, l1 @ ml, t1), ev)"
proof -
  have up: "\<forall>x \<in> set mh. \<not> breaks_up i cl x"
  proof
    fix x assume "x \<in> set mh"
    with assms(1) have "i \<le> index x" by blast
    then show "\<not> breaks_up i cl x" by (simp add: breaks_up_def)
  qed
  have down: "\<forall>x \<in> set ml. \<not> breaks_down i cl x"
  proof
    fix x assume "x \<in> set ml"
    with assms(1) have "i \<le> index x" by blast
    then show "\<not> breaks_down i cl x" by (simp add: breaks_down_def)
  qed
  note fb = first_break_append[OF up] first_break_append[OF down]
  show ?thesis
    using assms(2)
    by (cases "first_break (breaks_up i cl) hs"; cases "first_break (breaks_down i cl) ls")
       (auto simp: level_step_def Let_def fb hit_list_def hit_trend_def hit_line_def)
qed

lemma level_run_extra:
  assumes "\<forall>i \<in> set is. \<forall>q \<in> set mh \<union> set ml. i \<le> index q"
    and "level_run lvl dataList (hs, ls, tr) is = ((h1, l1, t1), evs)"
  shows "level_run lvl dataList (hs @ mh, ls @ ml, tr) is = ((h1 @ mh, l1 @ ml, t1), evs)"
  using assms
proof (induction "is" arbitrary: hs ls tr evs)
  case Nil
  then show ?case by simp
next
  case (Cons i "is")
  let ?cl = "numval (close (dataList ! i))"
  obtain s1 ev where st0: "level_step lvl i ?cl (hs, ls, tr) = (s1, ev)"
    by (cases "level_step lvl i ?cl (hs, ls, tr)")
  obtain a b c where s1: "s1 = (a, b, c)" by (cases s1)
  obtain s2 evs2 where r: "level_run lvl dataList (a, b, c) is = (s2, evs2)"
    by (cases "level_run lvl dataList (a, b, c) is")
  from Cons.prems(2) st0 s1 r have e: "s2 = (h1, l1, t1)" "evs = ev @ evs2" by simp_all
  from Cons.prems(1) have q: "\<forall>q \<in> set mh \<union> set ml. i \<le> index q"
    and rest: "\<forall>i \<in> set is. \<forall>q \<in> set mh \<union> set ml. i \<le> index q" by simp_all
  from level_step_extra[OF q st0[unfolded s1]]
  have "level_step lvl i ?cl (hs @ mh, ls @ ml, tr) = ((a @ mh, b @ ml, c), ev)" .
  moreover from Cons.IH[OF rest r[unfolded e(1)]]
  have "level_run lvl dataList (a @ mh, b @ ml, c) is = ((h1 @ mh, l1 @ ml, t1), evs2)" .
  ultimately show ?case using e by simp
qed

lemma level_run_filter_early:
  assumes "m \<le> n"
  shows "filter (\<lambda>e. breakIndex e < m) (snd (level_run lvl dataList s [0 ..< n]))
     = snd (level_run lvl dataList s [0 ..< m])"
proof -
  obtain s1 e1 where r1: "level_run lvl dataList s [0 ..< m] = (s1, e1)"
    by (cases "level_run lvl dataList s [0 ..< m]")
  obtain s2 e2 where r2: "level_run lvl dataList s1 [m ..< n] = (s2, e2)"
    by (cases "level_run lvl dataList s1 [m ..< n]")
  from assms obtain k where k: "n = m + k" by (auto simp: le_iff_add)
  have "[0 ..< n] = [0 ..< m] @ [m ..< n]" unfolding k by (rule upt_add_eq_append) simp
  then have run: "snd (level_run lvl dataList s [0 ..< n]) = e1 @ e2"
    using r1 r2 by (simp add: level_run_append)
  have "\<forall>e \<in> set e1. breakIndex e < m"
    using level_run_events[of _ lvl dataList s "[0 ..< m]"] r1 by simp
  moreover have "\<forall>e \<in> set e2. \<not> breakIndex e < m"
    using level_run_events[of _ lvl dataList s1 "[m ..< n]"] r2 by (simp add: not_less)
  ultimately have "filter (\<lambda>e. breakIndex e < m) (e1 @ e2) = e1"
    by (simp add: filter_id_conv filter_empty_conv)
  with run r1 show ?thesis by simp
qed

lemma level_events_early:
  assumes c: "calc dataList swingLength internalLength = Inr st"
    and L: "0 < lookback_of lvl swingLength internalLength"
    and n: "n \<le> length dataList"
  shows "filter (\<lambda>e. level e = lvl \<and> int (breakIndex e) + lookback_of lvl swingLength internalLength \<le> int n) (pivots st)
     = snd (level_run lvl (bars dataList)
         (fst (snd (pscan (bars dataList) (nat (lookback_of lvl swingLength internalLength)))),
          snd (snd (pscan (bars dataList) (nat (lookback_of lvl swingLength internalLength)))), Neutral)
         [0 ..< Suc n - nat (lookback_of lvl swingLength internalLength)])"
proof -
  let ?L = "lookback_of lvl swingLength internalLength"
  let ?l = "nat ?L"
  let ?m = "Suc n - ?l"
  have m: "?m \<le> length dataList" using L n by simp
  have conv: "(int b + ?L \<le> int n) = (b < ?m)" for b using L by auto
  have "filter (\<lambda>e. level e = lvl \<and> int (breakIndex e) + ?L \<le> int n) (pivots st)
      = filter (\<lambda>e. breakIndex e < ?m) (filter (\<lambda>e. level e = lvl) (pivots st))"
    by (auto simp: conv intro: filter_cong)
  then show ?thesis
    by (simp only: calc_level(2)[OF c] level_run_filter_early[OF m])
qed

text \<open>
  C7, as the code has it. When bars are appended, the recomputation detects at each
  level the same pivots with \<open>index < n_old - L\<close> as before, and they are all the pivots
  of the old run; and for \<open>L > 0\<close> it records the same lines of that level with
  \<open>breakIndex \<le> n_old - L\<close>.
\<close>

theorem appended_bars_keep_confirmed_history:
  assumes "detect_pivots dataList swingLength internalLength = Inr p"
    and "detect_pivots (dataList @ ext) swingLength internalLength = Inr p'"
    and "calc dataList swingLength internalLength = Inr st"
    and "calc (dataList @ ext) swingLength internalLength = Inr st'"
  shows "filter (\<lambda>q. int (index q) + lookback_of lvl swingLength internalLength < int (length dataList))
           (live lvl d p')
       = filter (\<lambda>q. int (index q) + lookback_of lvl swingLength internalLength < int (length dataList))
           (live lvl d p)
    \<and> filter (\<lambda>q. int (index q) + lookback_of lvl swingLength internalLength < int (length dataList))
           (live lvl d p) = live lvl d p
    \<and> (0 < lookback_of lvl swingLength internalLength \<longrightarrow>
        filter (\<lambda>e. level e = lvl
                  \<and> int (breakIndex e) + lookback_of lvl swingLength internalLength \<le> int (length dataList))
           (pivots st')
      = filter (\<lambda>e. level e = lvl
                  \<and> int (breakIndex e) + lookback_of lvl swingLength internalLength \<le> int (length dataList))
           (pivots st))"
proof -
  let ?L = "lookback_of lvl swingLength internalLength"
  let ?l = "nat ?L"
  let ?n = "length dataList"
  let ?D = "bars dataList"
  let ?E = "bars ext"
  let ?P = "\<lambda>q. int (index q) + ?L < int ?n"
  note d = detect_pivots_Inr[OF assms(1)]
  note d' = detect_pivots_Inr[OF assms(2), unfolded bars_append]
  have nD: "length ?D = ?n" by simp
  have L0: "0 \<le> ?L" using d by (cases lvl) simp_all
  have P: "?P q = (index q + ?l < ?n)" for q using L0 by auto
  from pscan_append[of ?D ?E ?l] obtain mh ml where ext:
    "fst (snd (pscan (?D @ ?E) ?l)) = fst (snd (pscan ?D ?l)) @ mh"
    "snd (snd (pscan (?D @ ?E) ?l)) = snd (snd (pscan ?D ?l)) @ ml"
    "\<forall>q \<in> set mh \<union> set ml. ?n - ?l \<le> index q" unfolding nD by blast
  note bnd = pscan_upto_bounds[of ?D ?l "?n - ?l"]
  have old: "\<forall>q \<in> set (fst (snd (pscan ?D ?l))) \<union> set (snd (snd (pscan ?D ?l))). ?P q"
    unfolding P using bnd by (auto simp: pscan_eq_upto)
  have new: "\<forall>q \<in> set mh \<union> set ml. \<not> ?P q"
  proof
    fix q assume "q \<in> set mh \<union> set ml"
    with ext(3) have "?n - ?l \<le> index q" by blast
    then show "\<not> ?P q" unfolding P by arith
  qed
  have lp: "live lvl Bull p = fst (snd (pscan ?D ?l))" "live lvl Bear p = snd (snd (pscan ?D ?l))"
    using d by (cases lvl; simp)+
  have lp': "live lvl Bull p' = live lvl Bull p @ mh" "live lvl Bear p' = live lvl Bear p @ ml"
    using d d' ext(1,2) by (cases lvl; simp)+
  have id: "filter ?P (live lvl dd p) = live lvl dd p" for dd
    using old by (cases dd) (simp_all add: lp filter_id_conv)
  have none: "filter ?P mh = []" "filter ?P ml = []"
    using new by (simp_all add: filter_empty_conv)
  have piv: "filter ?P (live lvl d p') = filter ?P (live lvl d p)"
    by (cases d) (simp_all add: lp' none)
  have ev: "filter (\<lambda>e. level e = lvl \<and> int (breakIndex e) + ?L \<le> int ?n) (pivots st')
      = filter (\<lambda>e. level e = lvl \<and> int (breakIndex e) + ?L \<le> int ?n) (pivots st)"
    if L: "0 < ?L"
  proof -
    let ?m = "Suc ?n - ?l"
    let ?s0 = "(fst (snd (pscan ?D ?l)), snd (snd (pscan ?D ?l)), Neutral)"
    let ?s0' = "(fst (snd (pscan (?D @ ?E) ?l)), snd (snd (pscan (?D @ ?E) ?l)), Neutral)"
    have m: "?m \<le> ?n" using L by simp
    obtain s1 evs where r0: "level_run lvl ?D ?s0 [0 ..< ?m] = (s1, evs)"
      by (cases "level_run lvl ?D ?s0 [0 ..< ?m]")
    obtain h1 l1 t1 where "s1 = (h1, l1, t1)" by (cases s1)
    with r0 have r: "level_run lvl ?D ?s0 [0 ..< ?m] = ((h1, l1, t1), evs)" by simp
    have far: "\<forall>i \<in> set [0 ..< ?m]. \<forall>q \<in> set mh \<union> set ml. i \<le> index q"
    proof (intro ballI)
      fix i q assume "i \<in> set [0 ..< ?m]" "q \<in> set mh \<union> set ml"
      with ext(3) have "i < ?m" "?n - ?l \<le> index q" by auto
      then show "i \<le> index q" by arith
    qed
    have same: "\<forall>i \<in> set [0 ..< ?m]. (?D @ ?E) ! i = ?D ! i"
      using m by (auto simp: nth_append)
    have "snd (level_run lvl (?D @ ?E) ?s0' [0 ..< ?m])
        = snd (level_run lvl ?D ?s0' [0 ..< ?m])"
      by (simp only: level_run_cong_bars[OF same])
    also have "\<dots> = evs"
      unfolding ext(1,2) using level_run_extra[OF far r] by simp
    finally have "snd (level_run lvl (?D @ ?E) ?s0' [0 ..< ?m])
        = snd (level_run lvl ?D ?s0 [0 ..< ?m])" using r by simp
    moreover have "?n \<le> length (dataList @ ext)" by simp
    ultimately show ?thesis
      using level_events_early[OF assms(4) L, of ?n] level_events_early[OF assms(3) L, of ?n]
      by simp
  qed
  from piv id[of d] ev show ?thesis by blast
qed

theorem appended_bars_keep_confirmed_history_witness:
  "detect_pivots example_bars 2 2 = Inr (projr (detect_pivots example_bars 2 2))
   \<and> detect_pivots (example_bars @ appended_bars) 2 2
       = Inr (projr (detect_pivots (example_bars @ appended_bars) 2 2))
   \<and> calc example_bars 2 2 = Inr (projr (calc example_bars 2 2))
   \<and> calc (example_bars @ appended_bars) 2 2 = Inr (projr (calc (example_bars @ appended_bars) 2 2))
   \<and> swingHighs (projr (detect_pivots (example_bars @ appended_bars) 2 2))
       = [\<lparr>index = 2, price = Fin 5\<rparr>, \<lparr>index = 7, price = Fin 6\<rparr>]
   \<and> filter (\<lambda>q. int (index q) + 2 < int (length example_bars))
         (swingHighs (projr (detect_pivots (example_bars @ appended_bars) 2 2)))
       = swingHighs (projr (detect_pivots example_bars 2 2))
   \<and> filter (\<lambda>e. level e = Swing \<and> int (breakIndex e) + 2 \<le> int (length example_bars))
         (pivots (projr (calc (example_bars @ appended_bars) 2 2)))
       = filter (\<lambda>e. level e = Swing \<and> int (breakIndex e) + 2 \<le> int (length example_bars))
         (pivots (projr (calc example_bars 2 2)))
   \<and> filter (\<lambda>e. level e = Swing \<and> int (breakIndex e) + 2 \<le> int (length example_bars))
         (pivots (projr (calc example_bars 2 2)))
       = [\<lparr>key = swingBosBull, pivotIndex = 2, breakIndex = 7, line_price = Fin 5, level = Swing\<rparr>]"
proof -
  have d: "detect_pivots example_bars 2 2 = Inr (projr (detect_pivots example_bars 2 2))"
    by (rule detect_pivots_projr) simp_all
  have d': "detect_pivots (example_bars @ appended_bars) 2 2
       = Inr (projr (detect_pivots (example_bars @ appended_bars) 2 2))"
    by (rule detect_pivots_projr) simp_all
  have c: "calc example_bars 2 2 = Inr (projr (calc example_bars 2 2))"
    by (rule calc_projr) simp_all
  have c': "calc (example_bars @ appended_bars) 2 2 = Inr (projr (calc (example_bars @ appended_bars) 2 2))"
    by (rule calc_projr) simp_all
  note t = appended_bars_keep_confirmed_history[OF d d' c c', of Swing Bull]
  have v: "swingHighs (projr (detect_pivots (example_bars @ appended_bars) 2 2))
       = [\<lparr>index = 2, price = Fin 5\<rparr>, \<lparr>index = 7, price = Fin 6\<rparr>]"
    by (simp add: example_bars_def appended_bars_def eval_simps)
  have e: "filter (\<lambda>e. level e = Swing \<and> int (breakIndex e) + 2 \<le> int (length example_bars))
         (pivots (projr (calc example_bars 2 2)))
       = [\<lparr>key = swingBosBull, pivotIndex = 2, breakIndex = 7, line_price = Fin 5, level = Swing\<rparr>]"
    by (simp add: example_pivots) (simp add: example_bars_def)
  from t d d' c c' v e show ?thesis by simp
qed

text \<open>
  Against C7 as stated: with lookback 1, the pivot high of bar 0 is confirmed by the
  appended bar 1. Its index 0 is \<open>\<le> n_old - L = 0\<close>, and the run over the one old bar
  does not have it.
\<close>

theorem appended_bar_confirms_boundary_pivot:
  "\<not> isl (detect_pivots [Some \<lparr>high = Num (Fin 9), low = Num (Fin 1), close = Num (Fin 5)\<rparr>] 1 1)
   \<and> \<not> isl (detect_pivots ([Some \<lparr>high = Num (Fin 9), low = Num (Fin 1), close = Num (Fin 5)\<rparr>]
                           @ [Some \<lparr>high = Num (Fin 8), low = Num (Fin 4), close = Num (Fin 5)\<rparr>]) 1 1)
   \<and> filter (\<lambda>q. int (index q) \<le> int (length [Some \<lparr>high = Num (Fin 9), low = Num (Fin 1), close = Num (Fin 5)\<rparr>]) - 1)
        (swingHighs (projr (detect_pivots ([Some \<lparr>high = Num (Fin 9), low = Num (Fin 1), close = Num (Fin 5)\<rparr>]
                           @ [Some \<lparr>high = Num (Fin 8), low = Num (Fin 4), close = Num (Fin 5)\<rparr>]) 1 1)))
       = [\<lparr>index = 0, price = Fin 9\<rparr>]
   \<and> filter (\<lambda>q. int (index q) \<le> int (length [Some \<lparr>high = Num (Fin 9), low = Num (Fin 1), close = Num (Fin 5)\<rparr>]) - 1)
        (swingHighs (projr (detect_pivots [Some \<lparr>high = Num (Fin 9), low = Num (Fin 1), close = Num (Fin 5)\<rparr>] 1 1)))
       = []"
  by (simp add: eval_simps)

section \<open>C5: writing a range into a channel\<close>

lemma run_start_no_key: "\<not> has_key rs ky k \<Longrightarrow> run_start rs ky k acc = acc"
  by (cases k) simp_all

lemma run_start_Some:
  "has_key rs ky k \<Longrightarrow>
     \<exists>r. run_start rs ky k acc = Some r \<and> r \<le> k \<and> (\<forall>j. r \<le> j \<and> j \<le> k \<longrightarrow> has_key rs ky j)"
proof (induction k arbitrary: acc)
  case 0
  then show ?case by simp
next
  case (Suc k)
  show ?case
  proof (cases "has_key rs ky k")
    case True
    from Suc.IH[OF True, of "Some (Suc k)"] obtain r where
      r: "run_start rs ky k (Some (Suc k)) = Some r" "r \<le> k" "\<forall>j. r \<le> j \<and> j \<le> k \<longrightarrow> has_key rs ky j"
      by blast
    have "\<forall>j. r \<le> j \<and> j \<le> Suc k \<longrightarrow> has_key rs ky j"
      using r(3) Suc.prems by (auto simp: le_Suc_eq)
    with r Suc.prems show ?thesis by auto
  next
    case False
    with Suc.prems show ?thesis by (auto simp: run_start_no_key le_Suc_eq)
  qed
qed

lemma run_end_spec:
  "r \<le> run_end rs ky r
   \<and> (\<forall>j. r < j \<and> j \<le> run_end rs ky r \<longrightarrow> has_key rs ky j)
   \<and> \<not> has_key rs ky (Suc (run_end rs ky r))"
proof (induction rs ky r rule: run_end.induct)
  case (1 results ky runEnd)
  show ?case
  proof (cases "runEnd + 1 < length results \<and> has_key results ky (runEnd + 1)")
    case True
    then have e: "run_end results ky runEnd = run_end results ky (runEnd + 1)"
      by (subst run_end.simps) simp
    from "1.IH"[OF True] have ih: "runEnd + 1 \<le> run_end results ky (runEnd + 1)"
      "\<forall>j. runEnd + 1 < j \<and> j \<le> run_end results ky (runEnd + 1) \<longrightarrow> has_key results ky j"
      "\<not> has_key results ky (Suc (run_end results ky (runEnd + 1)))" by simp_all
    have "has_key results ky j" if "runEnd < j" "j \<le> run_end results ky (runEnd + 1)" for j
    proof (cases "j = runEnd + 1")
      case True
      with \<open>runEnd + 1 < length results \<and> has_key results ky (runEnd + 1)\<close> show ?thesis by simp
    next
      case False
      with that have "runEnd + 1 < j" by simp
      with ih(2) that(2) show ?thesis by blast
    qed
    with ih(1,3) show ?thesis unfolding e by simp
  next
    case False
    then have e: "run_end results ky runEnd = runEnd"
      by (subst run_end.simps) auto
    from False show ?thesis unfolding e by (auto simp: has_key_def)
  qed
qed

lemma run_end_reaches:
  assumes "r \<le> m"
  shows "m \<le> run_end rs ky r \<longleftrightarrow> (\<forall>j. r < j \<and> j \<le> m \<longrightarrow> has_key rs ky j)"
proof
  assume "m \<le> run_end rs ky r"
  with run_end_spec[of r rs ky] show "\<forall>j. r < j \<and> j \<le> m \<longrightarrow> has_key rs ky j" by auto
next
  assume a: "\<forall>j. r < j \<and> j \<le> m \<longrightarrow> has_key rs ky j"
  show "m \<le> run_end rs ky r"
  proof (rule ccontr)
    assume "\<not> m \<le> run_end rs ky r"
    then have "Suc (run_end rs ky r) \<le> m" by simp
    moreover have "r < Suc (run_end rs ky r)" using run_end_spec[of r rs ky] by simp
    ultimately have "has_key rs ky (Suc (run_end rs ky r))" using a by blast
    with run_end_spec[of r rs ky] show False by simp
  qed
qed

lemma foldl_delete_key:
  "b \<le> length rs \<Longrightarrow>
     length (foldl (delete_key ky) rs [a ..< b]) = length rs
   \<and> (\<forall>m < length rs. foldl (delete_key ky) rs [a ..< b] ! m
         = (if a \<le> m \<and> m < b then (rs ! m)(ky := None) else rs ! m))"
proof (induction b)
  case 0
  then show ?case by simp
next
  case (Suc b)
  show ?case
  proof (cases "a \<le> b")
    case True
    with Suc show ?thesis
      by (auto simp: delete_key_def nth_list_update less_Suc_eq)
  next
    case False
    then show ?thesis by (auto simp: less_Suc_eq_le)
  qed
qed

lemma foldl_put_key:
  "b \<le> length rs \<Longrightarrow>
     length (foldl (put_key ky v) rs [a ..< b]) = length rs
   \<and> (\<forall>m < length rs. foldl (put_key ky v) rs [a ..< b] ! m
         = (if a \<le> m \<and> m < b then (rs ! m)(ky \<mapsto> v) else rs ! m))"
proof (induction b)
  case 0
  then show ?case by simp
next
  case (Suc b)
  show ?case
  proof (cases "a \<le> b")
    case True
    with Suc show ?thesis
      by (auto simp: put_key_def nth_list_update less_Suc_eq)
  next
    case False
    then show ?thesis by (auto simp: less_Suc_eq_le)
  qed
qed

text \<open>The truncation step of \<open>writeRange\<close>, on its own.\<close>

lemma truncate_nth:
  fixes rs ky start
  defines "r1 \<equiv> (case run_start rs ky (nat (max 0 (int start - 1))) None of
               None \<Rightarrow> rs
             | Some runStart \<Rightarrow>
                 (let runEnd = run_end rs ky runStart in
                  if runEnd \<ge> start
                  then foldl (delete_key ky) rs [start ..< min (Suc runEnd) (length rs)]
                  else rs))"
  shows "length r1 = length rs
    \<and> (\<forall>m < length rs. r1 ! m
         = (if start \<le> m \<and> (\<forall>j. start - 1 \<le> j \<and> j \<le> m \<longrightarrow> has_key rs ky j)
            then (rs ! m)(ky := None) else rs ! m))"
proof -
  let ?k = "nat (max 0 (int start - 1))"
  have k: "?k = start - 1" by simp
  show ?thesis
  proof (cases "has_key rs ky (start - 1)")
    case False
    then have "run_start rs ky ?k None = None" unfolding k by (rule run_start_no_key)
    then have r1: "r1 = rs" by (simp add: r1_def)
    have no: "\<not> (start \<le> m \<and> (\<forall>j. start - 1 \<le> j \<and> j \<le> m \<longrightarrow> has_key rs ky j))" for m
      using False by (auto intro: exI[of _ "start - 1"])
    have ifn: "(if start \<le> m \<and> (\<forall>j. start - 1 \<le> j \<and> j \<le> m \<longrightarrow> has_key rs ky j)
            then (rs ! m)(ky := None) else rs ! m) = rs ! m" for m
      by (rule if_not_P) (rule no)
    show ?thesis unfolding r1 ifn by simp
  next
    case True
    from run_start_Some[OF True, of None] obtain r where
      r: "run_start rs ky ?k None = Some r" "r \<le> start - 1"
         "\<forall>j. r \<le> j \<and> j \<le> start - 1 \<longrightarrow> has_key rs ky j"
      unfolding k by blast
    let ?e = "run_end rs ky r"
    have reach: "(m \<le> ?e) = (\<forall>j. start - 1 \<le> j \<and> j \<le> m \<longrightarrow> has_key rs ky j)" if "start \<le> m" for m
    proof -
      have rm: "r \<le> m" using r(2) that by simp
      have "(\<forall>j. r < j \<and> j \<le> m \<longrightarrow> has_key rs ky j) = (\<forall>j. start - 1 \<le> j \<and> j \<le> m \<longrightarrow> has_key rs ky j)"
        using r(2,3) by (metis le_neq_implies_less linorder_not_le nat_less_le order.strict_trans2)
      with run_end_reaches[OF rm, of rs ky] show ?thesis by simp
    qed
    show ?thesis
    proof (cases "?e \<ge> start")
      case True
      let ?b = "min (Suc ?e) (length rs)"
      have r1: "r1 = foldl (delete_key ky) rs [start ..< ?b]"
        using r(1) True by (simp add: r1_def Let_def)
      have b: "?b \<le> length rs" by simp
      note f = foldl_delete_key[OF b, of ky start]
      have "(start \<le> m \<and> m < ?b) = (start \<le> m \<and> (\<forall>j. start - 1 \<le> j \<and> j \<le> m \<longrightarrow> has_key rs ky j))"
        if "m < length rs" for m
        using that reach[of m] by (auto simp: less_Suc_eq_le)
      with f show ?thesis unfolding r1 by simp
    next
      case False
      then have r1: "r1 = rs" using r(1) by (simp add: r1_def Let_def)
      have no: "\<not> (start \<le> m \<and> (\<forall>j. start - 1 \<le> j \<and> j \<le> m \<longrightarrow> has_key rs ky j))" for m
        using reach[of m] False by auto
      have ifn: "(if start \<le> m \<and> (\<forall>j. start - 1 \<le> j \<and> j \<le> m \<longrightarrow> has_key rs ky j)
            then (rs ! m)(ky := None) else rs ! m) = rs ! m" for m
        by (rule if_not_P) (rule no)
      show ?thesis unfolding r1 ifn by simp
    qed
  qed
qed

lemma writeRange_length [simp]: "length (writeRange ky start end pr rs) = length rs"
  using truncate_nth[of rs ky start]
  by (simp add: writeRange_def Let_def foldl_put_key)


lemma write_all_snoc:
  "write_all (lines @ [x]) rs
     = writeRange (key x) (pivotIndex x) (breakIndex x) (line_price x) (write_all lines rs)"
  by (simp add: write_all_def)


lemma write_all_length [simp]: "length (write_all lines rs) = length rs"
  by (induction lines rule: rev_induct) (simp_all add: write_all_snoc, simp add: write_all_def)



















section \<open>C1: the break check takes the first pivot in insertion order\<close>

lemma hit_list_find:
  "hit_list (first_break P xs) xs
     = (case find P xs of None \<Rightarrow> xs
        | Some q \<Rightarrow> takeWhile (\<lambda>x. \<not> P x) xs @ tl (dropWhile (\<lambda>x. \<not> P x) xs))"
  by (simp add: first_break_find hit_list_def split: option.splits)

lemma hit_line_find:
  "map (\<lambda>e. (pivotIndex e, line_price e)) (hit_line (first_break P xs) k i lvl)
     = (case find P xs of None \<Rightarrow> [] | Some q \<Rightarrow> [(index q, price q)])"
  by (simp add: first_break_find hit_line_def line_of_def split: option.splits)

lemma hit_line_direction:
  "filter (\<lambda>e. key_direction (key e) = Some d) (hit_line h (chan lvl c d') i lvl)
     = (if d = d' then hit_line h (chan lvl c d') i lvl else [])"
  by (cases h) (auto simp: hit_line_def line_of_def)

lemma level_run_at_bar:
  assumes "i < n"
  shows "filter (\<lambda>e. breakIndex e = i) (snd (level_run lvl bs s [0 ..< n]))
     = snd (level_step lvl i (numval (close (bs ! i))) (fst (level_run lvl bs s [0 ..< i])))"
proof -
  let ?cl = "numval (close (bs ! i))"
  obtain s1 e1 where r1: "level_run lvl bs s [0 ..< i] = (s1, e1)"
    by (cases "level_run lvl bs s [0 ..< i]")
  obtain s2 ev where st: "level_step lvl i ?cl s1 = (s2, ev)" by (cases "level_step lvl i ?cl s1")
  have m: "Suc i \<le> n" using assms by simp
  have "filter (\<lambda>e. breakIndex e = i) (snd (level_run lvl bs s [0 ..< n]))
      = filter (\<lambda>e. breakIndex e = i) (filter (\<lambda>e. breakIndex e < Suc i) (snd (level_run lvl bs s [0 ..< n])))"
    by (auto simp: filter_filter intro: filter_cong)
  also have "\<dots> = filter (\<lambda>e. breakIndex e = i) (snd (level_run lvl bs s [0 ..< Suc i]))"
    by (simp only: level_run_filter_early[OF m])
  also have "snd (level_run lvl bs s [0 ..< Suc i]) = e1 @ ev"
    using r1 st by (simp add: level_run_append)
  also have "filter (\<lambda>e. breakIndex e = i) (e1 @ ev) = ev"
  proof -
    have "\<forall>e \<in> set e1. breakIndex e \<noteq> i"
      using level_run_events[of _ lvl bs s "[0 ..< i]"] r1 by auto
    moreover have "\<forall>e \<in> set ev. breakIndex e = i"
      using level_step_events[of _ lvl i ?cl s1] st by simp
    ultimately show ?thesis by (simp add: filter_id_conv filter_empty_conv)
  qed
  finally show ?thesis using r1 st by simp
qed

lemma calc_at_bar:
  assumes d: "detect_pivots dataList swingLength internalLength = Inr st0"
    and c: "calc dataList swingLength internalLength = Inr st"
    and i: "i < length dataList"
  shows "\<exists>b cl si si'. dataList ! i = Some b \<and> Number (close b) = Inr cl
       \<and> for_loop 0 (int i) (break_step dataList) st0 = Inr si
       \<and> break_step dataList (int i) si = Inr si'
       \<and> live lvl Bull si'
           = (case find (breaks_up i cl) (live lvl Bull si) of
                None \<Rightarrow> live lvl Bull si
              | Some q \<Rightarrow> takeWhile (\<lambda>x. \<not> breaks_up i cl x) (live lvl Bull si)
                           @ tl (dropWhile (\<lambda>x. \<not> breaks_up i cl x) (live lvl Bull si)))
       \<and> live lvl Bear si'
           = (case find (breaks_down i cl) (live lvl Bear si) of
                None \<Rightarrow> live lvl Bear si
              | Some q \<Rightarrow> takeWhile (\<lambda>x. \<not> breaks_down i cl x) (live lvl Bear si)
                           @ tl (dropWhile (\<lambda>x. \<not> breaks_down i cl x) (live lvl Bear si)))
       \<and> map (\<lambda>e. (pivotIndex e, line_price e))
             (filter (\<lambda>e. breakIndex e = i \<and> level e = lvl \<and> key_direction (key e) = Some Bull)
                (pivots st))
           = (case find (breaks_up i cl) (live lvl Bull si) of
                None \<Rightarrow> [] | Some q \<Rightarrow> [(index q, price q)])
       \<and> map (\<lambda>e. (pivotIndex e, line_price e))
             (filter (\<lambda>e. breakIndex e = i \<and> level e = lvl \<and> key_direction (key e) = Some Bear)
                (pivots st))
           = (case find (breaks_down i cl) (live lvl Bear si) of
                None \<Rightarrow> [] | Some q \<Rightarrow> [(index q, price q)])"
proof -
  let ?B = "bars dataList"
  from calc_Inr[OF c] d have st: "st = bfold ?B st0" and rd: "list_all close_readable dataList"
    by auto
  from rd i have ri: "close_readable (dataList ! i)" by (simp add: list_all_length)
  then obtain b where b: "dataList ! i = Some b" "close b \<noteq> Symbol"
    by (auto simp: close_readable_iff)
  define cl where "cl = numval (close b)"
  have nb: "Number (close b) = Inr cl" using b(2) by (simp add: Number_numval cl_def)
  have Bi: "numval (close (?B ! i)) = cl" using b(1) i by (simp add: bars_def cl_def)
  define si where "si = foldl (bstep ?B) st0 [0 ..< i]"
  have pre: "for_loop 0 (int i) (break_step dataList) st0 = Inr si"
    using break_loop_prefix[OF rd, of i st0] i by (simp add: si_def)
  define si' where "si' = bstep ?B si i"
  have step: "break_step dataList (int i) si = Inr si'"
    using break_step_readable[OF i ri, of si] by (simp add: si'_def)
  obtain hs ls tr where lsi: "level_of_state lvl si = (hs, ls, tr)"
    by (cases "level_of_state lvl si")
  have lh: "live lvl Bull si = hs" "live lvl Bear si = ls"
    using lsi by (cases lvl; simp)+
  let ?hb = "first_break (breaks_up i cl) hs" and ?hl = "first_break (breaks_down i cl) ls"
  let ?kb = "chan lvl (if tr = Bearish then CHoCH else BOS) Bull"
  let ?kl = "chan lvl (if hit_trend ?hb Bullish tr = Bullish then CHoCH else BOS) Bear"
  have ls': "level_of_state lvl si' = fst (level_step lvl i cl (hs, ls, tr))"
    using bstep_level[of lvl ?B si i] by (simp add: si'_def Bi lsi)
  have lh': "live lvl Bull si' = hit_list ?hb hs" "live lvl Bear si' = hit_list ?hl ls"
    using ls' by (cases lvl; simp add: level_step_def Let_def)+
  have p0: "pivots st0 = []" using detect_pivots_Inr[OF d] by simp
  have ev: "filter (\<lambda>e. level e = lvl) (pivots st)
      = snd (level_run lvl ?B (level_of_state lvl st0) [0 ..< length dataList])"
    using foldl_bstep_level[of lvl ?B st0 "[0 ..< length dataList]"] by (simp add: st bfold_def p0)
  have run: "fst (level_run lvl ?B (level_of_state lvl st0) [0 ..< i]) = (hs, ls, tr)"
    using foldl_bstep_level[of lvl ?B st0 "[0 ..< i]"] lsi by (simp add: si_def)
  have at: "filter (\<lambda>e. breakIndex e = i) (filter (\<lambda>e. level e = lvl) (pivots st))
      = hit_line ?hb ?kb i lvl @ hit_line ?hl ?kl i lvl"
    unfolding ev level_run_at_bar[OF i] run Bi by (simp add: level_step_def Let_def)
  have split: "filter (\<lambda>e. breakIndex e = i \<and> level e = lvl \<and> key_direction (key e) = Some dd) (pivots st)
      = filter (\<lambda>e. key_direction (key e) = Some dd) (hit_line ?hb ?kb i lvl @ hit_line ?hl ?kl i lvl)" for dd
    unfolding at[symmetric] by (auto simp: filter_filter intro: filter_cong)
  have bull: "filter (\<lambda>e. breakIndex e = i \<and> level e = lvl \<and> key_direction (key e) = Some Bull) (pivots st)
      = hit_line ?hb ?kb i lvl"
    unfolding split by (simp add: hit_line_direction)
  have bear: "filter (\<lambda>e. breakIndex e = i \<and> level e = lvl \<and> key_direction (key e) = Some Bear) (pivots st)
      = hit_line ?hl ?kl i lvl"
    unfolding split by (simp add: hit_line_direction)
  show ?thesis
    apply (rule exI[of _ b], rule exI[of _ cl], rule exI[of _ si], rule exI[of _ si'])
    apply (intro conjI)
    subgoal by (rule b(1))
    subgoal by (rule nb)
    subgoal by (rule pre)
    subgoal by (rule step)
    subgoal unfolding lh lh' by (rule hit_list_find)
    subgoal unfolding lh lh' by (rule hit_list_find)
    subgoal unfolding bull lh by (rule hit_line_find)
    subgoal unfolding bear lh by (rule hit_line_find)
    done
qed

text \<open>
  C1. The scan appends every pivot at the end of its list, so the lists are in insertion
  order, which is the order of the pivot indices. At bar \<open>i\<close> the bullish check acts on
  the first pivot high of the list, in that order, with \<open>index < i\<close> and
  \<open>price < close\<close>: it records one line, sets the trend, removes that pivot and leaves
  every other pivot in place. If there is none it changes nothing. The bearish checks do
  the same over the pivot lows with \<open>price > close\<close>. In a run of \<open>calc\<close>, bar \<open>i\<close> of
  the break loop reads the close of bar \<open>i\<close> and applies these checks to the lists as the
  bars before \<open>i\<close> have left them: the first pivot of a level's list that the close
  breaks is removed, and the lines of that bar, level and direction in the result are
  exactly the one line of that pivot, or none if the close breaks no pivot of the list.
  So a level records at most one bullish and at most one bearish line per bar.
\<close>

theorem break_check_takes_first_in_insertion_order:
  "check_bull ck bk lvl i cl (hs, tr, rs, pv) =
     (case find (breaks_up i cl) hs of
        None \<Rightarrow> (hs, tr, rs, pv)
      | Some q \<Rightarrow>
          (takeWhile (\<lambda>x. \<not> breaks_up i cl x) hs @ tl (dropWhile (\<lambda>x. \<not> breaks_up i cl x) hs),
           Bullish,
           writeRange (if tr = Bearish then ck else bk) (index q) i (price q) rs,
           pv @ [line_of (if tr = Bearish then ck else bk) q i lvl]))
   \<and> check_bear ck bk lvl i cl (ls, tr, rs, pv) =
     (case find (breaks_down i cl) ls of
        None \<Rightarrow> (ls, tr, rs, pv)
      | Some q \<Rightarrow>
          (takeWhile (\<lambda>x. \<not> breaks_down i cl x) ls @ tl (dropWhile (\<lambda>x. \<not> breaks_down i cl x) ls),
           Bearish,
           writeRange (if tr = Bullish then ck else bk) (index q) i (price q) rs,
           pv @ [line_of (if tr = Bullish then ck else bk) q i lvl]))
   \<and> check_bear_swing ck bk lvl i cl (ls, tr, rs, pv) = check_bear ck bk lvl i cl (ls, tr, rs, pv)
   \<and> (detect_pivots dataList swingLength internalLength = Inr pst \<longrightarrow>
        sorted_wrt (<) (map index (live lvl d pst)))
   \<and> (calc dataList swingLength internalLength = Inr st \<longrightarrow>
        length (filter (\<lambda>e. breakIndex e = i \<and> level e = lvl \<and> key_direction (key e) = Some d)
                  (pivots st)) \<le> 1)
   \<and> (detect_pivots dataList swingLength internalLength = Inr pst
       \<and> calc dataList swingLength internalLength = Inr st \<and> j < length dataList \<longrightarrow>
        (\<exists>b c sj sj'. dataList ! j = Some b \<and> Number (close b) = Inr c
           \<and> for_loop 0 (int j) (break_step dataList) pst = Inr sj
           \<and> break_step dataList (int j) sj = Inr sj'
           \<and> live lvl Bull sj'
               = (case find (breaks_up j c) (live lvl Bull sj) of
                    None \<Rightarrow> live lvl Bull sj
                  | Some q \<Rightarrow> takeWhile (\<lambda>x. \<not> breaks_up j c x) (live lvl Bull sj)
                               @ tl (dropWhile (\<lambda>x. \<not> breaks_up j c x) (live lvl Bull sj)))
           \<and> live lvl Bear sj'
               = (case find (breaks_down j c) (live lvl Bear sj) of
                    None \<Rightarrow> live lvl Bear sj
                  | Some q \<Rightarrow> takeWhile (\<lambda>x. \<not> breaks_down j c x) (live lvl Bear sj)
                               @ tl (dropWhile (\<lambda>x. \<not> breaks_down j c x) (live lvl Bear sj)))
           \<and> map (\<lambda>e. (pivotIndex e, line_price e))
                 (filter (\<lambda>e. breakIndex e = j \<and> level e = lvl \<and> key_direction (key e) = Some Bull)
                    (pivots st))
               = (case find (breaks_up j c) (live lvl Bull sj) of
                    None \<Rightarrow> [] | Some q \<Rightarrow> [(index q, price q)])
           \<and> map (\<lambda>e. (pivotIndex e, line_price e))
                 (filter (\<lambda>e. breakIndex e = j \<and> level e = lvl \<and> key_direction (key e) = Some Bear)
                    (pivots st))
               = (case find (breaks_down j c) (live lvl Bear sj) of
                    None \<Rightarrow> [] | Some q \<Rightarrow> [(index q, price q)])))"
proof (intro conjI impI)
  show "check_bull ck bk lvl i cl (hs, tr, rs, pv) =
     (case find (breaks_up i cl) hs of
        None \<Rightarrow> (hs, tr, rs, pv)
      | Some q \<Rightarrow>
          (takeWhile (\<lambda>x. \<not> breaks_up i cl x) hs @ tl (dropWhile (\<lambda>x. \<not> breaks_up i cl x) hs),
           Bullish,
           writeRange (if tr = Bearish then ck else bk) (index q) i (price q) rs,
           pv @ [line_of (if tr = Bearish then ck else bk) q i lvl]))"
    by (simp add: check_bull_form first_break_find Let_def hit_list_def hit_trend_def hit_write_def
        hit_line_def split: option.splits)
  show "check_bear ck bk lvl i cl (ls, tr, rs, pv) =
     (case find (breaks_down i cl) ls of
        None \<Rightarrow> (ls, tr, rs, pv)
      | Some q \<Rightarrow>
          (takeWhile (\<lambda>x. \<not> breaks_down i cl x) ls @ tl (dropWhile (\<lambda>x. \<not> breaks_down i cl x) ls),
           Bearish,
           writeRange (if tr = Bullish then ck else bk) (index q) i (price q) rs,
           pv @ [line_of (if tr = Bullish then ck else bk) q i lvl]))"
    by (simp add: check_bear_form first_break_find Let_def hit_list_def hit_trend_def hit_write_def
        hit_line_def split: option.splits)
  show "check_bear_swing ck bk lvl i cl (ls, tr, rs, pv) = check_bear ck bk lvl i cl (ls, tr, rs, pv)"
    by (rule check_bear_swing_eq)
  show "sorted_wrt (<) (map index (live lvl d pst))"
    if "detect_pivots dataList swingLength internalLength = Inr pst"
    using detect_pivots_sorted[OF that] .
  show "length (filter (\<lambda>e. breakIndex e = i \<and> level e = lvl \<and> key_direction (key e) = Some d)
                  (pivots st)) \<le> 1"
    if "calc dataList swingLength internalLength = Inr st"
    using calc_one_per_bar[OF that] .
  show "\<exists>b c sj sj'. dataList ! j = Some b \<and> Number (close b) = Inr c
           \<and> for_loop 0 (int j) (break_step dataList) pst = Inr sj
           \<and> break_step dataList (int j) sj = Inr sj'
           \<and> live lvl Bull sj'
               = (case find (breaks_up j c) (live lvl Bull sj) of
                    None \<Rightarrow> live lvl Bull sj
                  | Some q \<Rightarrow> takeWhile (\<lambda>x. \<not> breaks_up j c x) (live lvl Bull sj)
                               @ tl (dropWhile (\<lambda>x. \<not> breaks_up j c x) (live lvl Bull sj)))
           \<and> live lvl Bear sj'
               = (case find (breaks_down j c) (live lvl Bear sj) of
                    None \<Rightarrow> live lvl Bear sj
                  | Some q \<Rightarrow> takeWhile (\<lambda>x. \<not> breaks_down j c x) (live lvl Bear sj)
                               @ tl (dropWhile (\<lambda>x. \<not> breaks_down j c x) (live lvl Bear sj)))
           \<and> map (\<lambda>e. (pivotIndex e, line_price e))
                 (filter (\<lambda>e. breakIndex e = j \<and> level e = lvl \<and> key_direction (key e) = Some Bull)
                    (pivots st))
               = (case find (breaks_up j c) (live lvl Bull sj) of
                    None \<Rightarrow> [] | Some q \<Rightarrow> [(index q, price q)])
           \<and> map (\<lambda>e. (pivotIndex e, line_price e))
                 (filter (\<lambda>e. breakIndex e = j \<and> level e = lvl \<and> key_direction (key e) = Some Bear)
                    (pivots st))
               = (case find (breaks_down j c) (live lvl Bear sj) of
                    None \<Rightarrow> [] | Some q \<Rightarrow> [(index q, price q)])"
    if "detect_pivots dataList swingLength internalLength = Inr pst
       \<and> calc dataList swingLength internalLength = Inr st \<and> j < length dataList"
    using calc_at_bar[of dataList swingLength internalLength pst st j lvl] that by blast
qed


theorem break_check_takes_first_in_insertion_order_witness:
  "check_bull swingChochBull swingBosBull Swing 3 (Fin 6)
      ([\<lparr>index = 0, price = Fin 7\<rparr>, \<lparr>index = 1, price = Fin 3\<rparr>, \<lparr>index = 2, price = Fin 5\<rparr>],
       Neutral, [], [])
    = ([\<lparr>index = 0, price = Fin 7\<rparr>, \<lparr>index = 2, price = Fin 5\<rparr>], Bullish, [],
       [\<lparr>key = swingBosBull, pivotIndex = 1, breakIndex = 3, line_price = Fin 3, level = Swing\<rparr>])
   \<and> check_bear swingChochBear swingBosBear Swing 3 (Fin 6)
      ([\<lparr>index = 0, price = Fin 5\<rparr>, \<lparr>index = 1, price = Fin 9\<rparr>, \<lparr>index = 2, price = Fin 7\<rparr>],
       Bullish, [], [])
    = ([\<lparr>index = 0, price = Fin 5\<rparr>, \<lparr>index = 2, price = Fin 7\<rparr>], Bearish, [],
       [\<lparr>key = swingChochBear, pivotIndex = 1, breakIndex = 3, line_price = Fin 9, level = Swing\<rparr>])
   \<and> sorted_wrt (<) (map index (live Swing Bear (projr (detect_pivots example_bars 2 2))))
   \<and> length (filter (\<lambda>e. breakIndex e = 7 \<and> level e = Swing \<and> key_direction (key e) = Some Bull)
         (pivots (projr (calc example_bars 2 2)))) \<le> 1
   \<and> detect_pivots example_bars 2 2 = Inr (projr (detect_pivots example_bars 2 2))
   \<and> calc example_bars 2 2 = Inr (projr (calc example_bars 2 2))
   \<and> (7 :: nat) < length example_bars
   \<and> (\<exists>b c sj sj'. example_bars ! 7 = Some b \<and> Number (close b) = Inr c
           \<and> for_loop 0 (int 7) (break_step example_bars) (projr (detect_pivots example_bars 2 2)) = Inr sj
           \<and> break_step example_bars (int 7) sj = Inr sj'
           \<and> live Swing Bull sj'
               = (case find (breaks_up 7 c) (live Swing Bull sj) of
                    None \<Rightarrow> live Swing Bull sj
                  | Some q \<Rightarrow> takeWhile (\<lambda>x. \<not> breaks_up 7 c x) (live Swing Bull sj)
                               @ tl (dropWhile (\<lambda>x. \<not> breaks_up 7 c x) (live Swing Bull sj)))
           \<and> live Swing Bear sj'
               = (case find (breaks_down 7 c) (live Swing Bear sj) of
                    None \<Rightarrow> live Swing Bear sj
                  | Some q \<Rightarrow> takeWhile (\<lambda>x. \<not> breaks_down 7 c x) (live Swing Bear sj)
                               @ tl (dropWhile (\<lambda>x. \<not> breaks_down 7 c x) (live Swing Bear sj)))
           \<and> map (\<lambda>e. (pivotIndex e, line_price e))
                 (filter (\<lambda>e. breakIndex e = 7 \<and> level e = Swing \<and> key_direction (key e) = Some Bull)
                    (pivots (projr (calc example_bars 2 2))))
               = (case find (breaks_up 7 c) (live Swing Bull sj) of
                    None \<Rightarrow> [] | Some q \<Rightarrow> [(index q, price q)])
           \<and> map (\<lambda>e. (pivotIndex e, line_price e))
                 (filter (\<lambda>e. breakIndex e = 7 \<and> level e = Swing \<and> key_direction (key e) = Some Bear)
                    (pivots (projr (calc example_bars 2 2))))
               = (case find (breaks_down 7 c) (live Swing Bear sj) of
                    None \<Rightarrow> [] | Some q \<Rightarrow> [(index q, price q)]))
   \<and> map (\<lambda>e. (pivotIndex e, line_price e))
         (filter (\<lambda>e. breakIndex e = 7 \<and> level e = Swing \<and> key_direction (key e) = Some Bull)
            (pivots (projr (calc example_bars 2 2))))
       = [(2, Fin 5)]"
proof -
  note t1 = break_check_takes_first_in_insertion_order[where ck = swingChochBull and bk = swingBosBull
      and lvl = Swing and i = 3 and cl = "Fin 6" and tr = Neutral and rs = "[]" and pv = "[]"
      and hs = "[\<lparr>index = 0, price = Fin 7\<rparr>, \<lparr>index = 1, price = Fin 3\<rparr>, \<lparr>index = 2, price = Fin 5\<rparr>]"]
  note t2 = break_check_takes_first_in_insertion_order[where ck = swingChochBear and bk = swingBosBear
      and lvl = Swing and i = 3 and cl = "Fin 6" and tr = Bullish and rs = "[]" and pv = "[]"
      and ls = "[\<lparr>index = 0, price = Fin 5\<rparr>, \<lparr>index = 1, price = Fin 9\<rparr>, \<lparr>index = 2, price = Fin 7\<rparr>]"]
  note t3 = break_check_takes_first_in_insertion_order[where lvl = Swing and i = 7 and d = Bull
      and dataList = example_bars and swingLength = 2 and internalLength = 2
      and st = "projr (calc example_bars 2 2)",
      THEN conjunct2, THEN conjunct2, THEN conjunct2, THEN conjunct2, THEN conjunct1]
  note t4 = break_check_takes_first_in_insertion_order[where lvl = Swing and d = Bear
      and dataList = example_bars and swingLength = 2 and internalLength = 2
      and pst = "projr (detect_pivots example_bars 2 2)",
      THEN conjunct2, THEN conjunct2, THEN conjunct2, THEN conjunct1]
  note t5 = break_check_takes_first_in_insertion_order[where lvl = Swing and j = 7
      and dataList = example_bars and swingLength = 2 and internalLength = 2
      and pst = "projr (detect_pivots example_bars 2 2)" and st = "projr (calc example_bars 2 2)",
      THEN conjunct2, THEN conjunct2, THEN conjunct2, THEN conjunct2, THEN conjunct2]
  have c: "calc example_bars 2 2 = Inr (projr (calc example_bars 2 2))"
    by (rule calc_projr) simp_all
  have d: "detect_pivots example_bars 2 2 = Inr (projr (detect_pivots example_bars 2 2))"
    by (rule detect_pivots_projr) simp_all
  from t1[THEN conjunct1] have "check_bull swingChochBull swingBosBull Swing 3 (Fin 6)
      ([\<lparr>index = 0, price = Fin 7\<rparr>, \<lparr>index = 1, price = Fin 3\<rparr>, \<lparr>index = 2, price = Fin 5\<rparr>],
       Neutral, [], [])
    = ([\<lparr>index = 0, price = Fin 7\<rparr>, \<lparr>index = 2, price = Fin 5\<rparr>], Bullish, [],
       [\<lparr>key = swingBosBull, pivotIndex = 1, breakIndex = 3, line_price = Fin 3, level = Swing\<rparr>])"
    by (simp add: breaks_up_def line_of_def writeRange_def has_key_def Let_def)
  moreover from t2[THEN conjunct2, THEN conjunct1] have "check_bear swingChochBear swingBosBear Swing 3 (Fin 6)
      ([\<lparr>index = 0, price = Fin 5\<rparr>, \<lparr>index = 1, price = Fin 9\<rparr>, \<lparr>index = 2, price = Fin 7\<rparr>],
       Bullish, [], [])
    = ([\<lparr>index = 0, price = Fin 5\<rparr>, \<lparr>index = 2, price = Fin 7\<rparr>], Bearish, [],
       [\<lparr>key = swingChochBear, pivotIndex = 1, breakIndex = 3, line_price = Fin 9, level = Swing\<rparr>])"
    by (simp add: breaks_down_def js_lt_def line_of_def writeRange_def has_key_def Let_def)
  moreover from t4 d have "sorted_wrt (<) (map index (live Swing Bear (projr (detect_pivots example_bars 2 2))))"
    by blast
  moreover from t3 c have "length (filter (\<lambda>e. breakIndex e = 7 \<and> level e = Swing \<and> key_direction (key e) = Some Bull)
         (pivots (projr (calc example_bars 2 2)))) \<le> 1"
    by blast
  moreover have len: "(7 :: nat) < length example_bars" by (simp add: example_bars_def)
  moreover have "(\<exists>b c sj sj'. example_bars ! 7 = Some b \<and> Number (close b) = Inr c
           \<and> for_loop 0 (int 7) (break_step example_bars) (projr (detect_pivots example_bars 2 2)) = Inr sj
           \<and> break_step example_bars (int 7) sj = Inr sj'
           \<and> live Swing Bull sj'
               = (case find (breaks_up 7 c) (live Swing Bull sj) of
                    None \<Rightarrow> live Swing Bull sj
                  | Some q \<Rightarrow> takeWhile (\<lambda>x. \<not> breaks_up 7 c x) (live Swing Bull sj)
                               @ tl (dropWhile (\<lambda>x. \<not> breaks_up 7 c x) (live Swing Bull sj)))
           \<and> live Swing Bear sj'
               = (case find (breaks_down 7 c) (live Swing Bear sj) of
                    None \<Rightarrow> live Swing Bear sj
                  | Some q \<Rightarrow> takeWhile (\<lambda>x. \<not> breaks_down 7 c x) (live Swing Bear sj)
                               @ tl (dropWhile (\<lambda>x. \<not> breaks_down 7 c x) (live Swing Bear sj)))
           \<and> map (\<lambda>e. (pivotIndex e, line_price e))
                 (filter (\<lambda>e. breakIndex e = 7 \<and> level e = Swing \<and> key_direction (key e) = Some Bull)
                    (pivots (projr (calc example_bars 2 2))))
               = (case find (breaks_up 7 c) (live Swing Bull sj) of
                    None \<Rightarrow> [] | Some q \<Rightarrow> [(index q, price q)])
           \<and> map (\<lambda>e. (pivotIndex e, line_price e))
                 (filter (\<lambda>e. breakIndex e = 7 \<and> level e = Swing \<and> key_direction (key e) = Some Bear)
                    (pivots (projr (calc example_bars 2 2))))
               = (case find (breaks_down 7 c) (live Swing Bear sj) of
                    None \<Rightarrow> [] | Some q \<Rightarrow> [(index q, price q)]))"
    by (rule t5[THEN mp, OF conjI[OF d conjI[OF c len]]])
  moreover have "map (\<lambda>e. (pivotIndex e, line_price e))
         (filter (\<lambda>e. breakIndex e = 7 \<and> level e = Swing \<and> key_direction (key e) = Some Bull)
            (pivots (projr (calc example_bars 2 2))))
       = [(2, Fin 5)]"
    by (simp add: example_pivots)
  ultimately show ?thesis using d c by (intro conjI)
qed

end
